theory Spec2Isabelle
  imports Main "HOL-Library.Word" "HOL-Library.AList"
begin

section \<open>The gradient pass of nnvm (src/pass/gradient.cc)\<close>

text \<open>
  The pass works on a graph of heap-allocated nodes that are shared through
  reference-counted pointers. The embedding keeps the nodes in an explicit store: an
  address is a position in a list of nodes, \<open>Node::Create\<close> appends a node, and a
  pointer is an optional address (\<open>None\<close> is \<open>nullptr\<close>). Every function that the
  source runs on the store takes it as an argument and returns it updated. A failed
  \<open>CHECK\<close>, an exception and undefined behaviour are values of the type \<open>error\<close>.
\<close>

subsection \<open>Data model\<close>

type_synonym NodePtr = "nat option"

text \<open>
  \<open>NodeEntry\<close> (nnvm/node.h) is the aggregate that gradient.cc builds as
  \<open>NodeEntry{node, 0, 0}\<close>: a node pointer and two 32-bit unsigned fields, the
  output index and the version.
\<close>

record NodeEntry =
  node :: NodePtr
  index :: "32 word"
  version :: "32 word"

text \<open>
  The fields of \<open>Node\<close> that the pass reads or writes: \<open>attrs.op\<close> (an operator of
  the registry, identified by its name; \<open>None\<close> is the null operator of a variable),
  \<open>attrs.name\<close>, \<open>inputs\<close> and \<open>control_deps\<close>.
\<close>

record Node =
  op :: "string option"
  name :: string
  inputs :: "NodeEntry list"
  control_deps :: "NodePtr list"

datatype error =
    Check_Failed          \<comment> \<open>a failed \<open>CHECK\<close> (dmlc::Error)\<close>
  | Out_Of_Range          \<comment> \<open>\<open>std::out_of_range\<close> thrown by \<open>unordered_map::at\<close>\<close>
  | Undefined_Behaviour   \<comment> \<open>null dereference, \<open>vector::operator[]\<close> or iterator out of range\<close>
  | Callback_Raised       \<comment> \<open>an exception thrown by a user-supplied function\<close>
  | Fuel_Exhausted        \<comment> \<open>the bounded traversal of the model ran out of steps\<close>

type_synonym heap = "Node list"

definition Node_Create :: "heap \<Rightarrow> nat \<times> heap" where
  "Node_Create h = (length h, h @ [\<lparr>op = None, name = [], inputs = [], control_deps = []\<rparr>])"

definition deref :: "heap \<Rightarrow> NodePtr \<Rightarrow> error + Node" where
  "deref h p = (case p of
     None \<Rightarrow> Inl Undefined_Behaviour
   | Some a \<Rightarrow> if a < length h then Inr (h ! a) else Inl Undefined_Behaviour)"

definition is_variable :: "Node \<Rightarrow> bool" where
  "is_variable n = (op n = None)"

text \<open>
  Moving out of a \<open>NodeEntry\<close> moves its \<open>shared_ptr\<close>, which leaves the source's
  pointer null; the two integers are copied.
\<close>

definition moved_from :: "NodeEntry \<Rightarrow> NodeEntry" where
  "moved_from e = e\<lparr>node := None\<rparr>"

text \<open>
  The user-supplied functions. A gradient function (\<open>FGradient\<close>) receives the node
  pointer and the aggregated output gradients and may create nodes. An aggregation
  function receives the contribution list by rvalue reference: besides its result it
  determines what is left in that list. A mirror function is a predicate on a node.
\<close>

type_synonym FGradient = "NodePtr \<Rightarrow> NodeEntry list \<Rightarrow> heap \<Rightarrow> error + (NodeEntry list \<times> heap)"
type_synonym AggFun = "NodeEntry list \<Rightarrow> heap \<Rightarrow> error + (NodeEntry \<times> NodeEntry list \<times> heap)"
type_synonym MirrorFun = "Node \<Rightarrow> int"

text \<open>
  Modelled from the spec: the operator registry and \<open>Node::num_outputs\<close> are declared in
  nnvm/op.h and nnvm/node.h, which are not part of the sources. The registry is a
  parameter: which operator names \<open>Op::Get\<close> finds, and the \<open>FGradient\<close> attribute of each
  operator; the declared output arity of a node is a parameter too.
\<close>

record env =
  registered :: "string \<Rightarrow> bool"
  FGradient_map :: "string \<Rightarrow> FGradient option"
  num_outputs :: "Node \<Rightarrow> 32 word"

definition Op_Get :: "env \<Rightarrow> string \<Rightarrow> error + string" where
  "Op_Get E nm = (if registered E nm then Inr nm else Inl Check_Failed)"

subsection \<open>The default aggregation function\<close>

text \<open>
  Lines 18 to 31. \<open>Op::Get\<close> fails on an operator that is not registered. The second
  component of the result is what the call leaves in the vector it was given: the element
  that was moved out of, whose pointer is null, in the first branch; the empty vector
  after the move assignment of the third branch, the state in which the implementations
  of the standard library leave a vector that was moved from.
\<close>

definition DefaultAggregateGradient :: "env \<Rightarrow> AggFun" where
  "DefaultAggregateGradient E v h =
    (if length v = 1 then Inr (v ! 0, [moved_from (v ! 0)], h)
     else if length v = 0 then
       (case Node_Create h of (zero_node, h1) \<Rightarrow>
        (case Op_Get E ''__zero__'' of
           Inl x \<Rightarrow> Inl x
         | Inr z \<Rightarrow>
             Inr (\<lparr>node = Some zero_node, index = 0, version = 0\<rparr>, v,
                  h1[zero_node := (h1 ! zero_node)\<lparr>op := Some z\<rparr>])))
     else
       (case Node_Create h of (sum_node, h1) \<Rightarrow>
        (case Op_Get E ''__ewise_sum__'' of
           Inl x \<Rightarrow> Inl x
         | Inr s \<Rightarrow>
             (let h2 = h1[sum_node := (h1 ! sum_node)\<lparr>op := Some s\<rparr>];
                  h3 = h2[sum_node := (h2 ! sum_node)\<lparr>inputs := v\<rparr>]
              in Inr (\<lparr>node = Some sum_node, index = 0, version = 0\<rparr>, [], h3)))))"

subsection \<open>The traversal of the ancestors\<close>

text \<open>
  Modelled from the spec: \<open>DFSVisit\<close> is declared in nnvm/graph.h, which is not part of
  the sources. By section 4.1 of the specification it is a depth-first traversal from the
  requested entries that follows input edges and then control-dependency edges, reports
  every reachable node once, and reports a node after the nodes it depends on. The
  recursion is bounded by a counter; the store has finitely many nodes, and
  \<open>Suc (length h)\<close> levels are enough for it.
\<close>

fun visit :: "nat \<Rightarrow> heap \<Rightarrow> NodePtr \<Rightarrow> NodePtr list \<times> NodePtr list
    \<Rightarrow> error + (NodePtr list \<times> NodePtr list)"
  and visit_all :: "nat \<Rightarrow> heap \<Rightarrow> NodePtr list \<Rightarrow> NodePtr list \<times> NodePtr list
    \<Rightarrow> error + (NodePtr list \<times> NodePtr list)" where
  "visit 0 h p s = Inl Fuel_Exhausted"
| "visit (Suc k) h p s =
     (if p \<in> set (fst s) then Inr s
      else case deref h p of
        Inl x \<Rightarrow> Inl x
      | Inr n \<Rightarrow>
          (case visit_all k h (map node (inputs n) @ control_deps n) (p # fst s, snd s) of
             Inl x \<Rightarrow> Inl x
           | Inr s' \<Rightarrow> Inr (fst s', snd s' @ [p])))"
| "visit_all k h [] s = Inr s"
| "visit_all k h (p # ps) s =
     (case visit k h p s of
        Inl x \<Rightarrow> Inl x
      | Inr s' \<Rightarrow> visit_all k h ps s')"

definition DFSVisit :: "heap \<Rightarrow> NodeEntry list \<Rightarrow> error + NodePtr list" where
  "DFSVisit h heads =
     (case visit_all (Suc (length h)) h (map node heads) ([], []) of
        Inl x \<Rightarrow> Inl x
      | Inr s \<Rightarrow> Inr (snd s))"

subsection \<open>Pending gradients\<close>

text \<open>The field \<open>sum\<close> of the source is \<open>sum_entry\<close> here.\<close>

record GradEntry =
  sum_entry :: NodeEntry
  grads :: "NodeEntry list"

definition GradEntry_init :: GradEntry where
  "GradEntry_init = \<lparr>sum_entry = \<lparr>node = None, index = 0, version = 0\<rparr>, grads = []\<rparr>"

text \<open>
  The two \<open>unordered_map\<close>s of the pass are association lists with one pair per key.
  \<open>output_grads[k][i]\<close> on a key that is absent creates an empty vector, and indexing a
  vector out of range is undefined behaviour; \<open>at\<close> throws on an absent key. A slot is
  read with \<open>slot_get\<close> and written back with \<open>slot_put\<close> after the read succeeded.
\<close>

type_synonym grad_table = "(NodePtr \<times> GradEntry list) list"
type_synonym mirror_table = "(NodePtr \<times> NodePtr) list"

definition slot_get :: "grad_table \<Rightarrow> NodeEntry \<Rightarrow> error + GradEntry" where
  "slot_get og e = (case map_of og (node e) of
     None \<Rightarrow> Inl Undefined_Behaviour
   | Some v \<Rightarrow> if unat (index e) < length v then Inr (v ! unat (index e))
              else Inl Undefined_Behaviour)"

definition slot_put :: "grad_table \<Rightarrow> NodeEntry \<Rightarrow> GradEntry \<Rightarrow> grad_table" where
  "slot_put og e g = (case map_of og (node e) of
     None \<Rightarrow> og
   | Some v \<Rightarrow> AList.update (node e) (v[unat (index e) := g]) og)"

definition mirror_at :: "mirror_table \<Rightarrow> NodePtr \<Rightarrow> error + NodePtr" where
  "mirror_at m p = (case map_of m p of None \<Rightarrow> Inl Out_Of_Range | Some q \<Rightarrow> Inr q)"

subsection \<open>The steps of the pass\<close>

text \<open>The function that \<open>DFSVisit\<close> calls on each node (lines 68 to 73).\<close>

definition alloc_slots :: "env \<Rightarrow> heap \<Rightarrow> grad_table \<Rightarrow> NodePtr \<Rightarrow> error + grad_table" where
  "alloc_slots E h og p =
     (if map_of og p = None then
        (case deref h p of
           Inl x \<Rightarrow> Inl x
         | Inr n \<Rightarrow> Inr (AList.update p (replicate (unat (num_outputs E n)) GradEntry_init) og))
      else Inr og)"

fun alloc_all :: "env \<Rightarrow> heap \<Rightarrow> grad_table \<Rightarrow> NodePtr list \<Rightarrow> error + grad_table" where
  "alloc_all E h og [] = Inr og"
| "alloc_all E h og (p # ps) =
     (case alloc_slots E h og p of
        Inl x \<Rightarrow> Inl x
      | Inr og' \<Rightarrow> alloc_all E h og' ps)"

text \<open>
  The seeds (lines 76 to 78); the lengths of the two lists are equal when the loop
  runs, and a missing seed would be a read out of range.
\<close>

fun init_seeds :: "grad_table \<Rightarrow> NodeEntry list \<Rightarrow> NodeEntry list \<Rightarrow> error + grad_table" where
  "init_seeds og [] gs = Inr og"
| "init_seeds og (y # ys) [] = Inl Undefined_Behaviour"
| "init_seeds og (y # ys) (g # gs) =
     (case slot_get og y of
        Inl x \<Rightarrow> Inl x
      | Inr e \<Rightarrow> init_seeds (slot_put og y (e\<lparr>grads := [g]\<rparr>)) ys gs)"

text \<open>The mirror plan (lines 82 to 98).\<close>

fun mirror_entries :: "mirror_table \<Rightarrow> NodeEntry list \<Rightarrow> error + NodeEntry list" where
  "mirror_entries m [] = Inr []"
| "mirror_entries m (e # es) =
     (case mirror_at m (node e) of
        Inl x \<Rightarrow> Inl x
      | Inr q \<Rightarrow>
          (case mirror_entries m es of
             Inl x \<Rightarrow> Inl x
           | Inr es' \<Rightarrow> Inr (e\<lparr>node := q\<rparr> # es')))"

fun mirror_deps :: "mirror_table \<Rightarrow> NodePtr list \<Rightarrow> error + NodePtr list" where
  "mirror_deps m [] = Inr []"
| "mirror_deps m (p # ps) =
     (case mirror_at m p of
        Inl x \<Rightarrow> Inl x
      | Inr q \<Rightarrow>
          (case mirror_deps m ps of
             Inl x \<Rightarrow> Inl x
           | Inr ps' \<Rightarrow> Inr (q # ps')))"

definition mirror_step :: "MirrorFun \<Rightarrow> heap \<times> mirror_table \<Rightarrow> NodePtr
    \<Rightarrow> error + (heap \<times> mirror_table)" where
  "mirror_step mirror_fun s p =
     (case deref (fst s) p of
        Inl x \<Rightarrow> Inl x
      | Inr n \<Rightarrow>
          if mirror_fun n \<noteq> 0 then
            (case Node_Create (fst s) of (new_node, h1) \<Rightarrow>
              (case mirror_entries (snd s) (inputs n) of
                 Inl x \<Rightarrow> Inl x
               | Inr ins \<Rightarrow>
                   (case mirror_deps (snd s) (control_deps n) of
                      Inl x \<Rightarrow> Inl x
                    | Inr deps \<Rightarrow>
                        Inr (h1[new_node := n\<lparr>name := name n @ ''_mirror'',
                                                inputs := ins, control_deps := deps\<rparr>],
                             AList.update p (Some new_node) (snd s)))))
          else Inr (fst s, AList.update p p (snd s)))"

fun mirror_all :: "MirrorFun \<Rightarrow> heap \<times> mirror_table \<Rightarrow> NodePtr list
    \<Rightarrow> error + (heap \<times> mirror_table)" where
  "mirror_all mirror_fun s [] = Inr s"
| "mirror_all mirror_fun s (p # ps) =
     (case mirror_step mirror_fun s p of
        Inl x \<Rightarrow> Inl x
      | Inr s' \<Rightarrow> mirror_all mirror_fun s' ps)"

text \<open>
  The aggregation of the slots of one node (lines 108 to 111): each slot keeps the result
  in \<open>sum\<close>, and its list is what the aggregation function left of it.
\<close>

fun agg_slots :: "AggFun \<Rightarrow> GradEntry list \<Rightarrow> heap
    \<Rightarrow> error + (GradEntry list \<times> NodeEntry list \<times> heap)" where
  "agg_slots agg_fun [] h = Inr ([], [], h)"
| "agg_slots agg_fun (e # es) h =
     (case agg_fun (grads e) h of
        Inl x \<Rightarrow> Inl x
      | Inr (s, rest, h1) \<Rightarrow>
          (case agg_slots agg_fun es h1 of
             Inl x \<Rightarrow> Inl x
           | Inr (es', out_agg_grads, h2) \<Rightarrow>
               Inr (\<lparr>sum_entry = s, grads = rest\<rparr> # es', s # out_agg_grads, h2)))"

text \<open>
  The scatter loop (lines 114 to 117) runs over the inputs of the node and advances
  the iterator of the returned gradients with it, without comparing the two lengths.
\<close>

fun scatter :: "grad_table \<Rightarrow> NodeEntry list \<Rightarrow> NodeEntry list \<Rightarrow> error + grad_table" where
  "scatter og [] gs = Inr og"
| "scatter og (i # is) [] = Inl Undefined_Behaviour"
| "scatter og (i # is) (g # gs) =
     (case slot_get og i of
        Inl x \<Rightarrow> Inl x
      | Inr e \<Rightarrow> scatter (slot_put og i (e\<lparr>grads := grads e @ [g]\<rparr>)) is gs)"

text \<open>
  The call of the gradient function of a node (lines 112 and 113): the operator of the
  node selects the function, and the node argument is the node itself when the mirror map
  is empty, its image under the mirror map otherwise.
\<close>

definition call_grad_fun :: "env \<Rightarrow> mirror_table \<Rightarrow> NodePtr \<Rightarrow> NodeEntry list \<Rightarrow> heap
    \<Rightarrow> error + (NodeEntry list \<times> heap)" where
  "call_grad_fun E mirror_map ptr out_agg_grads h =
     (case deref h ptr of
        Inl x \<Rightarrow> Inl x
      | Inr n \<Rightarrow>
          (case op n of
             None \<Rightarrow> Inl Check_Failed
           | Some opname \<Rightarrow>
               (case FGradient_map E opname of
                  None \<Rightarrow> Inl Check_Failed
                | Some grad_fun \<Rightarrow>
                    (case (if length mirror_map = 0 then Inr ptr
                           else mirror_at mirror_map ptr) of
                       Inl x \<Rightarrow> Inl x
                     | Inr arg \<Rightarrow> grad_fun arg out_agg_grads h))))"

definition backward_step :: "env \<Rightarrow> AggFun \<Rightarrow> mirror_table \<Rightarrow> grad_table \<times> heap \<Rightarrow> NodePtr
    \<Rightarrow> error + (grad_table \<times> heap)" where
  "backward_step E agg_fun mirror_map s ptr =
     (case deref (snd s) ptr of
        Inl x \<Rightarrow> Inl x
      | Inr n \<Rightarrow>
          if is_variable n then Inr s
          else
            (case map_of (fst s) ptr of
               None \<Rightarrow> Inl Out_Of_Range
             | Some slots \<Rightarrow>
                 (case agg_slots agg_fun slots (snd s) of
                    Inl x \<Rightarrow> Inl x
                  | Inr (slots', out_agg_grads, h1) \<Rightarrow>
                      (case call_grad_fun E mirror_map ptr out_agg_grads h1 of
                         Inl x \<Rightarrow> Inl x
                       | Inr (input_grads, h2) \<Rightarrow>
                           (case deref h2 ptr of
                              Inl x \<Rightarrow> Inl x
                            | Inr n2 \<Rightarrow>
                                (case scatter (AList.update ptr slots' (fst s))
                                        (inputs n2) input_grads of
                                   Inl x \<Rightarrow> Inl x
                                 | Inr og' \<Rightarrow> Inr (og', h2)))))))"

fun backward :: "env \<Rightarrow> AggFun \<Rightarrow> mirror_table \<Rightarrow> grad_table \<times> heap \<Rightarrow> NodePtr list
    \<Rightarrow> error + (grad_table \<times> heap)" where
  "backward E agg_fun mirror_map s [] = Inr s"
| "backward E agg_fun mirror_map s (ptr # ptrs) =
     (case backward_step E agg_fun mirror_map s ptr of
        Inl x \<Rightarrow> Inl x
      | Inr s' \<Rightarrow> backward E agg_fun mirror_map s' ptrs)"

text \<open>
  The requested gradients (lines 122 to 129). A slot whose \<open>sum\<close> has a null pointer
  is aggregated (lines 125 to 127). The result is moved out of the slot into the output
  list, which leaves the pointer of \<open>sum\<close> null in the slot.
\<close>

definition aggregate_if_needed :: "AggFun \<Rightarrow> GradEntry \<Rightarrow> heap \<Rightarrow> error + (GradEntry \<times> heap)" where
  "aggregate_if_needed agg_fun entry h =
     (if node (sum_entry entry) = None then
        (case agg_fun (grads entry) h of
           Inl x \<Rightarrow> Inl x
         | Inr (r, rest, h1) \<Rightarrow> Inr (\<lparr>sum_entry = r, grads = rest\<rparr>, h1))
      else Inr (entry, h))"

definition take_grad :: "AggFun \<Rightarrow> grad_table \<times> heap \<times> NodeEntry list \<Rightarrow> NodeEntry
    \<Rightarrow> error + (grad_table \<times> heap \<times> NodeEntry list)" where
  "take_grad agg_fun s e =
     (case s of (og, h, outs) \<Rightarrow>
       (case slot_get og e of
          Inl x \<Rightarrow> Inl x
        | Inr entry \<Rightarrow>
            (case aggregate_if_needed agg_fun entry h of
               Inl x \<Rightarrow> Inl x
             | Inr (entry1, h1) \<Rightarrow>
                 Inr (slot_put og e (entry1\<lparr>sum_entry := moved_from (sum_entry entry1)\<rparr>),
                      h1, outs @ [sum_entry entry1]))))"

fun take_grads :: "AggFun \<Rightarrow> grad_table \<times> heap \<times> NodeEntry list \<Rightarrow> NodeEntry list
    \<Rightarrow> error + (grad_table \<times> heap \<times> NodeEntry list)" where
  "take_grads agg_fun s [] = Inr s"
| "take_grads agg_fun s (e # es) =
     (case take_grad agg_fun s e of
        Inl x \<Rightarrow> Inl x
      | Inr s' \<Rightarrow> take_grads agg_fun s' es)"

subsection \<open>The pass\<close>

text \<open>
  The attributes of a graph that the pass reads; each is present or absent. A graph that
  the pass creates has none.
\<close>

record GraphAttrs =
  grad_ys :: "NodeEntry list option"
  grad_ys_out_grad :: "NodeEntry list option"
  grad_xs :: "NodeEntry list option"
  grad_aggregate_fun :: "AggFun option"
  grad_mirror_fun :: "MirrorFun option"

record Graph =
  outputs :: "NodeEntry list"
  attrs :: GraphAttrs

definition no_attrs :: GraphAttrs where
  "no_attrs = \<lparr>grad_ys = None, grad_ys_out_grad = None, grad_xs = None,
     grad_aggregate_fun = None, grad_mirror_fun = None\<rparr>"

text \<open>
  The state at the end of the pass: the table of pending gradients, the mirror map, the
  output list and the store.
\<close>

record pass_state =
  output_grads :: grad_table
  mirror_map :: mirror_table
  ret_outputs :: "NodeEntry list"
  store :: heap

definition Gradient_run :: "env \<Rightarrow> Graph \<Rightarrow> heap \<Rightarrow> error + pass_state" where
  "Gradient_run E src h =
     (case grad_ys (attrs src) of
        None \<Rightarrow> Inl Check_Failed
      | Some ys \<Rightarrow>
     (case grad_ys_out_grad (attrs src) of
        None \<Rightarrow> Inl Check_Failed
      | Some ys_out_grad \<Rightarrow>
     (case grad_xs (attrs src) of
        None \<Rightarrow> Inl Check_Failed
      | Some xs \<Rightarrow>
     (let agg_fun = (case grad_aggregate_fun (attrs src) of
                       None \<Rightarrow> DefaultAggregateGradient E
                     | Some f \<Rightarrow> f)
      in
     (case DFSVisit h ys of
        Inl x \<Rightarrow> Inl x
      | Inr topo_order \<Rightarrow>
     (case alloc_all E h [] topo_order of
        Inl x \<Rightarrow> Inl x
      | Inr og0 \<Rightarrow>
     (if length ys \<noteq> length ys_out_grad then Inl Check_Failed
      else
     (case init_seeds og0 ys ys_out_grad of
        Inl x \<Rightarrow> Inl x
      | Inr og1 \<Rightarrow>
     (case (case grad_mirror_fun (attrs src) of
              None \<Rightarrow> Inr (h, [])
            | Some mirror_fun \<Rightarrow> mirror_all mirror_fun (h, []) topo_order) of
        Inl x \<Rightarrow> Inl x
      | Inr (h1, mm) \<Rightarrow>
     (case backward E agg_fun mm (og1, h1) (rev topo_order) of
        Inl x \<Rightarrow> Inl x
      | Inr (og2, h2) \<Rightarrow>
     (case take_grads agg_fun (og2, h2, []) xs of
        Inl x \<Rightarrow> Inl x
      | Inr (og3, h3, outs) \<Rightarrow>
          Inr \<lparr>output_grads = og3, mirror_map = mm, ret_outputs = outs,
               store = h3\<rparr>)))))))))))"

definition Gradient :: "env \<Rightarrow> Graph \<Rightarrow> heap \<Rightarrow> error + (Graph \<times> heap)" where
  "Gradient E src h =
     (case Gradient_run E src h of
        Inl x \<Rightarrow> Inl x
      | Inr st \<Rightarrow> Inr (\<lparr>outputs = ret_outputs st, attrs = no_attrs\<rparr>, store st))"

subsection \<open>Notions used in the statements\<close>

text \<open>
  A slot of the table is addressed by the node pointer and the output index of an entry;
  the version takes no part in it.
\<close>

definition slot_key :: "NodeEntry \<Rightarrow> NodePtr \<times> nat" where
  "slot_key e = (node e, unat (index e))"

text \<open>The keys of a table, and the pointers that address a node of a store.\<close>

definition keys :: "('k \<times> 'v) list \<Rightarrow> 'k set" where
  "keys al = fst ` set al"

definition valid_ptr :: "heap \<Rightarrow> NodePtr \<Rightarrow> bool" where
  "valid_ptr h p = (case p of None \<Rightarrow> False | Some a \<Rightarrow> a < length h)"

text \<open>
  The gradients that a scatter loop over the inputs \<open>ins\<close> and the returned gradients
  \<open>gs\<close> sends to the slot of \<open>e\<close>, in the order of the loop.
\<close>

definition contributions :: "NodeEntry \<Rightarrow> NodeEntry list \<Rightarrow> NodeEntry list \<Rightarrow> NodeEntry list" where
  "contributions e ins gs =
     map snd (filter (\<lambda>p. slot_key (fst p) = slot_key e) (zip ins gs))"

text \<open>A graph with its aggregation function or its mirror function set.\<close>

definition with_agg :: "AggFun \<Rightarrow> Graph \<Rightarrow> Graph" where
  "with_agg f g = g\<lparr>attrs := (attrs g)\<lparr>grad_aggregate_fun := Some f\<rparr>\<rparr>"

definition with_mirror :: "MirrorFun option \<Rightarrow> Graph \<Rightarrow> Graph" where
  "with_mirror f g = g\<lparr>attrs := (attrs g)\<lparr>grad_mirror_fun := f\<rparr>\<rparr>"


text \<open>
  A mirror map sends a node to itself or to a copy that was created after the store \<open>h\<close>
  was taken.
\<close>

definition copies_are_new :: "heap \<Rightarrow> mirror_table \<Rightarrow> bool" where
  "copies_are_new h m =
     (\<forall>p q. map_of m p = Some q \<longrightarrow> q = p \<or> (\<exists>a. q = Some a \<and> length h \<le> a))"

subsection \<open>Example graphs\<close>

definition ent :: "nat \<Rightarrow> NodeEntry" where
  "ent a = \<lparr>node = Some a, index = 0, version = 0\<rparr>"

definition null_entry :: NodeEntry where
  "null_entry = \<lparr>node = None, index = 0, version = 0\<rparr>"

definition variable_node :: "string \<Rightarrow> Node" where
  "variable_node nm = \<lparr>op = None, name = nm, inputs = [], control_deps = []\<rparr>"

definition op_node :: "string \<Rightarrow> string \<Rightarrow> NodeEntry list \<Rightarrow> Node" where
  "op_node opn nm ins = \<lparr>op = Some opn, name = nm, inputs = ins, control_deps = []\<rparr>"

text \<open>
  The graph of a request: the three required attributes, the default aggregation and no
  mirror function.
\<close>

definition request :: "NodeEntry list \<Rightarrow> NodeEntry list \<Rightarrow> NodeEntry list \<Rightarrow> Graph" where
  "request ys ys_out_grad xs =
     \<lparr>outputs = ys,
      attrs = \<lparr>grad_ys = Some ys, grad_ys_out_grad = Some ys_out_grad, grad_xs = Some xs,
               grad_aggregate_fun = None, grad_mirror_fun = None\<rparr>\<rparr>"

text \<open>
  Gradient functions: \<open>unary_grad nm\<close> creates one node of the operator \<open>nm\<close> over the
  output gradients and the forward node and returns its output; \<open>both_grad\<close> returns
  the first output gradient twice and creates nothing.
\<close>

definition unary_grad :: "string \<Rightarrow> FGradient" where
  "unary_grad nm ptr out_grads h =
     Inr ([ent (length h)],
          h @ [op_node nm [] (out_grads @ [\<lparr>node = ptr, index = 0, version = 0\<rparr>])])"

definition both_grad :: FGradient where
  "both_grad ptr out_grads h =
     (case out_grads of [] \<Rightarrow> Inl Callback_Raised | g # gs \<Rightarrow> Inr ([g, g], h))"

definition example_env :: env where
  "example_env =
     \<lparr>registered = (\<lambda>nm. True),
      FGradient_map = (\<lambda>nm.
        if nm = ''f'' then Some (unary_grad ''f_grad'')
        else if nm = ''g'' then Some (unary_grad ''g_grad'')
        else if nm = ''add'' then Some both_grad
        else if nm = ''dup'' then Some both_grad
        else None),
      num_outputs = (\<lambda>n. 1)\<rparr>"

text \<open>An environment in which every operator is registered and none has a gradient.\<close>

definition plain_env :: env where
  "plain_env = \<lparr>registered = (\<lambda>nm. True), FGradient_map = (\<lambda>nm. None),
     num_outputs = (\<lambda>n. 1)\<rparr>"

text \<open>A table with the single slot of node 0.\<close>

definition one_slot_table :: grad_table where
  "one_slot_table = [(Some 0, [GradEntry_init])]"

text \<open>
  The diamond: the variable \<open>x\<close> at address 0 feeds \<open>f\<close> at 1 and \<open>g\<close> at 2, which
  feed \<open>y\<close> at 3.
\<close>

definition diamond :: "string \<Rightarrow> string \<Rightarrow> string \<Rightarrow> heap" where
  "diamond opf opg opy =
     [variable_node ''x'', op_node opf ''f'' [ent 0], op_node opg ''g'' [ent 0],
      op_node opy ''y'' [ent 1, ent 2]]"

text \<open>
  The chain: \<open>x\<close> at 0 feeds \<open>y = f(x)\<close> at 1; the seed is the variable at 2, and the
  variable \<open>z\<close> at 3 feeds nothing.
\<close>

definition chain :: heap where
  "chain = [variable_node ''x'', op_node ''f'' ''y'' [ent 0], variable_node ''seed'',
     variable_node ''z'']"

text \<open>
  The chain for any operator, before any other nodes \<open>r0\<close> of the store: \<open>x\<close> at 0 feeds
  \<open>y = opf(x)\<close> at 1. When every node is mirrored, the pass appends the copy of \<open>x\<close> at
  \<open>length r0 + 2\<close> and the copy of \<open>y\<close>, which reads the copy of \<open>x\<close>, at
  \<open>length r0 + 3\<close>.
\<close>

definition chain_of :: "string \<Rightarrow> heap" where
  "chain_of opf = [variable_node ''x'', op_node opf ''y'' [ent 0]]"

definition mirrored_chain :: "string \<Rightarrow> heap \<Rightarrow> heap" where
  "mirrored_chain opf r0 =
     chain_of opf @ r0 @
       [variable_node ''x_mirror'', op_node opf ''y_mirror'' [ent (length r0 + 2)]]"


text \<open>
  An aggregation function that always creates a node over the contributions and leaves
  the list as it was.
\<close>

definition wrap_agg :: AggFun where
  "wrap_agg v h =
     Inr (ent (length h), v, h @ [op_node ''agg'' [] v])"

subsection \<open>Stores that differ by a renaming of addresses\<close>

text \<open>
  Two runs of the pass create their nodes at different addresses. A renaming is a
  partial injective map from the addresses of one store to those of another; pointers,
  entries, nodes, stores and tables are related by it when they agree up to the renaming
  of the addresses they hold.
\<close>

type_synonym renaming = "nat \<Rightarrow> nat option"

definition inj_ren :: "renaming \<Rightarrow> bool" where
  "inj_ren r = (\<forall>a b c. r a = Some c \<and> r b = Some c \<longrightarrow> a = b)"

definition rel_ptr :: "renaming \<Rightarrow> NodePtr \<Rightarrow> NodePtr \<Rightarrow> bool" where
  "rel_ptr r p p' = (case p of None \<Rightarrow> p' = None | Some a \<Rightarrow> p' \<noteq> None \<and> r a = p')"

definition rel_entry :: "renaming \<Rightarrow> NodeEntry \<Rightarrow> NodeEntry \<Rightarrow> bool" where
  "rel_entry r e e' =
     (rel_ptr r (node e) (node e') \<and> index e = index e' \<and> version e = version e')"

definition rel_node :: "renaming \<Rightarrow> Node \<Rightarrow> Node \<Rightarrow> bool" where
  "rel_node r n n' =
     (op n = op n' \<and> name n = name n'
      \<and> list_all2 (rel_entry r) (inputs n) (inputs n')
      \<and> list_all2 (rel_ptr r) (control_deps n) (control_deps n'))"

definition rel_heap :: "renaming \<Rightarrow> heap \<Rightarrow> heap \<Rightarrow> bool" where
  "rel_heap r h h' =
     (inj_ren r \<and>
      (\<forall>a a'. r a = Some a' \<longrightarrow>
         a < length h \<and> a' < length h' \<and> rel_node r (h ! a) (h' ! a')))"

definition rel_grad :: "renaming \<Rightarrow> GradEntry \<Rightarrow> GradEntry \<Rightarrow> bool" where
  "rel_grad r g g' =
     (rel_entry r (sum_entry g) (sum_entry g') \<and> list_all2 (rel_entry r) (grads g) (grads g'))"

definition rel_alist :: "renaming \<Rightarrow> ('v \<Rightarrow> 'w \<Rightarrow> bool) \<Rightarrow> (NodePtr \<times> 'v) list
    \<Rightarrow> (NodePtr \<times> 'w) list \<Rightarrow> bool" where
  "rel_alist r V al al' =
     list_all2 (\<lambda>x y. rel_ptr r (fst x) (fst y) \<and> V (snd x) (snd y)) al al'"

definition rel_table :: "renaming \<Rightarrow> grad_table \<Rightarrow> grad_table \<Rightarrow> bool" where
  "rel_table r = rel_alist r (list_all2 (rel_grad r))"

definition rel_mirror :: "renaming \<Rightarrow> mirror_table \<Rightarrow> mirror_table \<Rightarrow> bool" where
  "rel_mirror r = rel_alist r (rel_ptr r)"

definition rel_request :: "renaming \<Rightarrow> Graph \<Rightarrow> Graph \<Rightarrow> bool" where
  "rel_request r src src' =
     (rel_option (list_all2 (rel_entry r)) (grad_ys (attrs src)) (grad_ys (attrs src'))
      \<and> rel_option (list_all2 (rel_entry r)) (grad_ys_out_grad (attrs src))
            (grad_ys_out_grad (attrs src'))
      \<and> rel_option (list_all2 (rel_entry r)) (grad_xs (attrs src)) (grad_xs (attrs src'))
      \<and> grad_aggregate_fun (attrs src') = grad_aggregate_fun (attrs src)
      \<and> grad_mirror_fun (attrs src') = grad_mirror_fun (attrs src))"

text \<open>
  What is asked of the user-supplied functions. A function of a node depends on the node
  up to renaming. A gradient function and an aggregation function that succeed on some
  arguments succeed on renamed arguments, with results that are renamed by an extension
  of the renaming (\<open>equivariant\<close>), and they leave the nodes that exist as they are
  (\<open>framing\<close>).
\<close>

definition shape_fun :: "(Node \<Rightarrow> 'a) \<Rightarrow> bool" where
  "shape_fun f = (\<forall>r n n'. rel_node r n n' \<longrightarrow> f n = f n')"

definition equivariant_grad :: "FGradient \<Rightarrow> bool" where
  "equivariant_grad gf =
     (\<forall>r h h' p p' ogs ogs' gs h1.
        rel_heap r h h' \<and> rel_ptr r p p' \<and> list_all2 (rel_entry r) ogs ogs'
          \<and> gf p ogs h = Inr (gs, h1) \<longrightarrow>
        (\<exists>r' gs' h1'. r \<subseteq>\<^sub>m r' \<and> gf p' ogs' h' = Inr (gs', h1') \<and> rel_heap r' h1 h1'
           \<and> list_all2 (rel_entry r') gs gs'))"

definition equivariant_agg :: "AggFun \<Rightarrow> bool" where
  "equivariant_agg af =
     (\<forall>r h h' v v' s rest h1.
        rel_heap r h h' \<and> list_all2 (rel_entry r) v v' \<and> af v h = Inr (s, rest, h1) \<longrightarrow>
        (\<exists>r' s' rest' h1'. r \<subseteq>\<^sub>m r' \<and> af v' h' = Inr (s', rest', h1') \<and> rel_heap r' h1 h1'
           \<and> rel_entry r' s s' \<and> list_all2 (rel_entry r') rest rest'))"

definition equivariant_env :: "env \<Rightarrow> bool" where
  "equivariant_env E =
     (shape_fun (num_outputs E)
      \<and> (\<forall>nm gf. FGradient_map E nm = Some gf \<longrightarrow> equivariant_grad gf))"

definition equivariant_request :: "Graph \<Rightarrow> bool" where
  "equivariant_request src =
     ((\<forall>f. grad_aggregate_fun (attrs src) = Some f \<longrightarrow> equivariant_agg f)
      \<and> (\<forall>f. grad_mirror_fun (attrs src) = Some f \<longrightarrow> shape_fun f))"

definition extends :: "heap \<Rightarrow> heap \<Rightarrow> bool" where
  "extends h h1 = (take (length h) h1 = h)"

definition framing_grad :: "FGradient \<Rightarrow> bool" where
  "framing_grad gf = (\<forall>p ogs h gs h1. gf p ogs h = Inr (gs, h1) \<longrightarrow> extends h h1)"

definition framing_agg :: "AggFun \<Rightarrow> bool" where
  "framing_agg af = (\<forall>v h s rest h1. af v h = Inr (s, rest, h1) \<longrightarrow> extends h h1)"

definition framing_env :: "env \<Rightarrow> bool" where
  "framing_env E = (\<forall>nm gf. FGradient_map E nm = Some gf \<longrightarrow> framing_grad gf)"

definition framing_request :: "Graph \<Rightarrow> bool" where
  "framing_request src = (\<forall>f. grad_aggregate_fun (attrs src) = Some f \<longrightarrow> framing_agg f)"

text \<open>
  A store is closed when every pointer in its nodes is null or addresses one of its
  nodes, as it is for nodes that own their inputs; likewise the entries of a request.
  The identity renaming of a store is defined on its addresses.
\<close>

definition closed_ptr :: "heap \<Rightarrow> NodePtr \<Rightarrow> bool" where
  "closed_ptr h p = (case p of None \<Rightarrow> True | Some a \<Rightarrow> a < length h)"

definition closed_entries :: "heap \<Rightarrow> NodeEntry list \<Rightarrow> bool" where
  "closed_entries h es = list_all (\<lambda>e. closed_ptr h (node e)) es"

definition closed_node :: "heap \<Rightarrow> Node \<Rightarrow> bool" where
  "closed_node h n = (closed_entries h (inputs n) \<and> list_all (closed_ptr h) (control_deps n))"

definition closed_heap :: "heap \<Rightarrow> bool" where
  "closed_heap h = list_all (closed_node h) h"

definition closed_request :: "heap \<Rightarrow> Graph \<Rightarrow> bool" where
  "closed_request h src =
     ((case grad_ys (attrs src) of None \<Rightarrow> True | Some es \<Rightarrow> closed_entries h es)
      \<and> (case grad_ys_out_grad (attrs src) of None \<Rightarrow> True | Some es \<Rightarrow> closed_entries h es)
      \<and> (case grad_xs (attrs src) of None \<Rightarrow> True | Some es \<Rightarrow> closed_entries h es))"

definition id_ren :: "heap \<Rightarrow> renaming" where
  "id_ren h = (\<lambda>a. if a < length h then Some a else None)"

text \<open>The addresses of a store that a traversal has not marked.\<close>

definition unvisited :: "heap \<Rightarrow> NodePtr list \<Rightarrow> nat set" where
  "unvisited h vis = {a. a < length h \<and> Some a \<notin> set vis}"

section \<open>Properties\<close>

subsection \<open>The default aggregation function\<close>

text \<open>
  Claim C1. On the empty list the default aggregation function creates a node, makes it
  the operator \<open>__zero__\<close> and returns output 0 of it; on a list of one element it
  returns that element and creates nothing; on a list of two or more elements it creates
  a node of the operator \<open>__ewise_sum__\<close> whose inputs are the list in its order
  and returns output 0 of it. The created node is at the first free address of the
  store, and the nodes that existed stay as they were. The two operators are required to
  be registered (line 17 of the source).
\<close>

theorem DefaultAggregateGradient_cases:
  "(v = [] \<and> registered E ''__zero__'' \<longrightarrow>
      DefaultAggregateGradient E v h =
        Inr (\<lparr>node = Some (length h), index = 0, version = 0\<rparr>, [],
             h @ [\<lparr>op = Some ''__zero__'', name = [], inputs = [], control_deps = []\<rparr>]))
   \<and> (\<forall>e. v = [e] \<longrightarrow> DefaultAggregateGradient E v h = Inr (e, [moved_from e], h))
   \<and> (2 \<le> length v \<and> registered E ''__ewise_sum__'' \<longrightarrow>
      DefaultAggregateGradient E v h =
        Inr (\<lparr>node = Some (length h), index = 0, version = 0\<rparr>, [],
             h @ [\<lparr>op = Some ''__ewise_sum__'', name = [], inputs = v,
                   control_deps = []\<rparr>]))"
  by (simp add: DefaultAggregateGradient_def Node_Create_def Op_Get_def)

theorem DefaultAggregateGradient_cases_witness:
  "DefaultAggregateGradient plain_env [] [] =
        Inr (\<lparr>node = Some 0, index = 0, version = 0\<rparr>, [],
             [\<lparr>op = Some ''__zero__'', name = [], inputs = [], control_deps = []\<rparr>])
   \<and> DefaultAggregateGradient plain_env [ent 3] [] = Inr (ent 3, [moved_from (ent 3)], [])
   \<and> DefaultAggregateGradient plain_env [ent 3, ent 4] [] =
        Inr (\<lparr>node = Some 0, index = 0, version = 0\<rparr>, [],
             [\<lparr>op = Some ''__ewise_sum__'', name = [], inputs = [ent 3, ent 4],
               control_deps = []\<rparr>])"
  using DefaultAggregateGradient_cases [of "[]" plain_env "[]"]
    DefaultAggregateGradient_cases [of "[ent 3]" plain_env "[]"]
    DefaultAggregateGradient_cases [of "[ent 3, ent 4]" plain_env "[]"]
  by (simp add: plain_env_def)

subsection \<open>Slots and keys\<close>

lemma slot_get_cong: "slot_key e' = slot_key e \<Longrightarrow> slot_get og e' = slot_get og e"
  by (auto simp: slot_get_def slot_key_def split: option.splits)

lemma slot_put_cong: "slot_key e' = slot_key e \<Longrightarrow> slot_put og e' g = slot_put og e g"
  by (auto simp: slot_put_def slot_key_def split: option.splits)

lemma slot_get_put_same:
  "slot_get og e = Inr x \<Longrightarrow> slot_get (slot_put og e g) e = Inr g"
  by (auto simp: slot_get_def slot_put_def update_conv' split: option.splits if_splits)

lemma slot_get_put_other:
  "slot_key e' \<noteq> slot_key e \<Longrightarrow> slot_get (slot_put og e g) e' = slot_get og e'"
  by (auto simp: slot_get_def slot_put_def slot_key_def update_conv'
      split: option.splits if_splits)

lemma map_of_None_keys: "map_of al k = None \<longleftrightarrow> k \<notin> keys al"
  by (simp add: keys_def map_of_eq_None_iff)

lemma keys_update: "keys (AList.update k v al) = insert k (keys al)"
  by (simp add: keys_def dom_update)

lemma keys_update_present: "map_of al k = Some v' \<Longrightarrow> keys (AList.update k v al) = keys al"
  using map_of_None_keys [of al k] by (auto simp: keys_update)

lemma keys_slot_put: "keys (slot_put og e g) = keys og"
  by (auto simp: slot_put_def keys_update_present split: option.splits)

lemma deref_valid: "deref h p = Inr n \<Longrightarrow> valid_ptr h p"
  by (auto simp: deref_def valid_ptr_def split: option.splits if_splits)

lemma valid_deref: "valid_ptr h p \<Longrightarrow> \<exists>n. deref h p = Inr n"
  by (auto simp: deref_def valid_ptr_def split: option.splits)

subsection \<open>The traversal\<close>

lemma visit_valid:
  "visit k h p s = Inr s' \<Longrightarrow> list_all (valid_ptr h) (snd s)
     \<Longrightarrow> list_all (valid_ptr h) (snd s')"
  "visit_all k h ps s = Inr s' \<Longrightarrow> list_all (valid_ptr h) (snd s)
     \<Longrightarrow> list_all (valid_ptr h) (snd s')"
proof (induction k h p s and k h ps s arbitrary: s' and s' rule: visit_visit_all.induct)
  case (1 h p s)
  then show ?case by simp
next
  case (2 k h p s)
  then show ?case
    by (auto split: if_splits sum.splits dest: deref_valid)
next
  case (3 k h s)
  then show ?case by simp
next
  case (4 k h p ps s)
  then show ?case by (auto split: sum.splits)
qed

lemma DFSVisit_valid: "DFSVisit h ys = Inr topo \<Longrightarrow> list_all (valid_ptr h) topo"
  by (auto simp: DFSVisit_def split: sum.splits dest: visit_valid(2))

lemma keys_alloc_all: "alloc_all E h og ps = Inr og' \<Longrightarrow> keys og' = keys og \<union> set ps"
  by (induction ps arbitrary: og)
     (auto simp: alloc_slots_def keys_update map_of_None_keys split: sum.splits if_splits)

subsection \<open>The seeds\<close>

lemma keys_init_seeds: "init_seeds og ys gs = Inr og' \<Longrightarrow> keys og' = keys og"
  by (induction og ys gs rule: init_seeds.induct) (auto simp: keys_slot_put split: sum.splits)

lemma init_seeds_other:
  "init_seeds og ys gs = Inr og' \<Longrightarrow> \<forall>y \<in> set ys. slot_key y \<noteq> slot_key e
    \<Longrightarrow> slot_get og' e = slot_get og e"
  by (induction og ys gs rule: init_seeds.induct)
     (auto simp: slot_get_put_other split: sum.splits)

lemma init_seeds_last:
  "init_seeds og ys gs = Inr og' \<Longrightarrow> j < length ys \<Longrightarrow> j < length gs
    \<Longrightarrow> \<forall>k. j < k \<and> k < length ys \<longrightarrow> slot_key (ys ! k) \<noteq> slot_key (ys ! j)
    \<Longrightarrow> \<exists>e. slot_get og' (ys ! j) = Inr e \<and> grads e = [gs ! j]"
proof (induction og ys gs arbitrary: j rule: init_seeds.induct)
  case (1 og gs)
  then show ?case by simp
next
  case (2 og y ys)
  then show ?case by simp
next
  case (3 og y ys g gs)
  from "3.prems"(1) obtain e0 where e0: "slot_get og y = Inr e0"
    and rest: "init_seeds (slot_put og y (e0\<lparr>grads := [g]\<rparr>)) ys gs = Inr og'"
    by (auto split: sum.splits)
  show ?case
  proof (cases j)
    case 0
    have "\<forall>z \<in> set ys. slot_key z \<noteq> slot_key y"
    proof
      fix z assume "z \<in> set ys"
      then obtain k where "k < length ys" "ys ! k = z" by (auto simp: in_set_conv_nth)
      with "3.prems"(4) [rule_format, of "Suc k"] 0 show "slot_key z \<noteq> slot_key y" by auto
    qed
    from init_seeds_other [OF rest this]
    have "slot_get og' y = Inr (e0\<lparr>grads := [g]\<rparr>)"
      by (simp add: slot_get_put_same [OF e0])
    with 0 show ?thesis by simp
  next
    case (Suc j')
    have "\<forall>k. j' < k \<and> k < length ys \<longrightarrow> slot_key (ys ! k) \<noteq> slot_key (ys ! j')"
      using "3.prems"(4) Suc by (metis Suc_less_eq length_Cons nth_Cons_Suc)
    from "3.IH" [OF e0 rest _ _ this] "3.prems"(2,3) Suc show ?thesis by simp
  qed
qed

text \<open>
  Claim C9. The loop over \<open>grad_ys\<close> assigns the one-element list of the seed to the
  slot of each entry. When an entry stands at two positions \<open>i < j\<close> and \<open>j\<close> is its last
  position, the slot holds after the loop the seed of position \<open>j\<close> alone: the seeds of
  the earlier positions are gone.
\<close>

theorem init_seeds_last_occurrence_wins:
  assumes "init_seeds og ys ys_out_grad = Inr og'"
    and "length ys = length ys_out_grad"
    and "i < j" and "j < length ys"
    and "slot_key (ys ! i) = slot_key (ys ! j)"
    and "\<forall>k. j < k \<and> k < length ys \<longrightarrow> slot_key (ys ! k) \<noteq> slot_key (ys ! j)"
  shows "\<exists>e. slot_get og' (ys ! i) = Inr e \<and> grads e = [ys_out_grad ! j]"
proof -
  from assms(2,4) have "j < length ys_out_grad" by simp
  from init_seeds_last [OF assms(1) assms(4) this assms(6)]
  obtain e where "slot_get og' (ys ! j) = Inr e" and "grads e = [ys_out_grad ! j]" by blast
  with slot_get_cong [OF assms(5), of og'] show ?thesis by auto
qed

theorem init_seeds_last_occurrence_wins_witness:
  "\<exists>og'. init_seeds one_slot_table [ent 0, ent 0] [ent 1, ent 2] = Inr og'
     \<and> (\<exists>e. slot_get og' (ent 0) = Inr e \<and> grads e = [ent 2])"
proof -
  have run: "init_seeds one_slot_table [ent 0, ent 0] [ent 1, ent 2]
      = Inr [(Some 0, [GradEntry_init\<lparr>grads := [ent 2]\<rparr>])]"
    by (simp add: one_slot_table_def ent_def slot_get_def slot_put_def)
  have "\<exists>e. slot_get [(Some 0, [GradEntry_init\<lparr>grads := [ent 2]\<rparr>])] ([ent 0, ent 0] ! 0) = Inr e
      \<and> grads e = [[ent 1, ent 2] ! 1]"
    by (rule init_seeds_last_occurrence_wins [OF run, of 0 1]) simp_all
  with run show ?thesis by simp
qed

subsection \<open>The bound of the traversal\<close>

text \<open>
  The traversal marks a node before it descends into it, so the depth of the recursion is
  at most the number of nodes of the store: the counter never runs out
  (\<open>DFSVisit_fuel\<close>), and a larger counter gives the same result.
\<close>

lemma finite_unvisited: "finite (unvisited h vis)"
  by (simp add: unvisited_def)

lemma unvisited_Cons:
  "a < length h \<Longrightarrow> Some a \<notin> set vis \<Longrightarrow>
     card (unvisited h (Some a # vis)) < card (unvisited h vis)"
proof -
  assume a: "a < length h" "Some a \<notin> set vis"
  then have "unvisited h (Some a # vis) \<subset> unvisited h vis"
    by (auto simp: unvisited_def)
  then show ?thesis by (simp add: psubset_card_mono finite_unvisited)
qed

lemma unvisited_mono: "set vis \<subseteq> set vis' \<Longrightarrow> card (unvisited h vis') \<le> card (unvisited h vis)"
  by (rule card_mono) (auto simp: unvisited_def)

lemma visit_grows:
  "visit k h p s = Inr s' \<Longrightarrow> set (fst s) \<subseteq> set (fst s')"
  "visit_all k h ps s = Inr s' \<Longrightarrow> set (fst s) \<subseteq> set (fst s')"
proof (induction k h p s and k h ps s arbitrary: s' and s' rule: visit_visit_all.induct)
  case (1 h p s)
  then show ?case by simp
next
  case (2 k h p s)
  show ?case
  proof (cases "p \<in> set (fst s)")
    case True
    with "2.prems" show ?thesis by simp
  next
    case False
    with "2.prems" obtain n s0 where n: "deref h p = Inr n"
      and s0: "visit_all k h (map node (inputs n) @ control_deps n) (p # fst s, snd s) = Inr s0"
      and s': "s' = (fst s0, snd s0 @ [p])"
      by (auto split: sum.splits)
    from "2.IH" [OF False n s0] s' show ?thesis by auto
  qed
next
  case (3 k h s)
  then show ?case by simp
next
  case (4 k h p ps s)
  from "4.prems" obtain s1 where s1: "visit k h p s = Inr s1"
    and rest: "visit_all k h ps s1 = Inr s'"
    by (auto split: sum.splits)
  from "4.IH"(1) [OF s1] "4.IH"(2) [OF s1 rest] show ?case by blast
qed

lemma visit_fuel_enough:
  "card (unvisited h (fst s)) < k \<Longrightarrow> visit k h p s \<noteq> Inl Fuel_Exhausted"
  "card (unvisited h (fst s)) < k \<Longrightarrow> visit_all k h ps s \<noteq> Inl Fuel_Exhausted"
proof (induction k h p s and k h ps s rule: visit_visit_all.induct)
  case (1 h p s)
  then show ?case by simp
next
  case (2 k h p s)
  show ?case
  proof (cases "p \<in> set (fst s)")
    case True
    then show ?thesis by simp
  next
    case False
    show ?thesis
    proof (cases "deref h p")
      case (Inl x)
      then have "x = Undefined_Behaviour"
        by (auto simp: deref_def split: option.splits if_splits)
      with False Inl show ?thesis by simp
    next
      case (Inr n)
      then obtain a where a: "p = Some a" "a < length h"
        by (auto simp: deref_def split: option.splits if_splits)
      with False have "card (unvisited h (p # fst s)) < card (unvisited h (fst s))"
        by (simp add: unvisited_Cons)
      with "2.prems" have "card (unvisited h (fst (p # fst s, snd s))) < k" by simp
      from "2.IH" [OF False Inr this] False Inr show ?thesis
        by (auto split: sum.splits)
    qed
  qed
next
  case (3 k h s)
  then show ?case by simp
next
  case (4 k h p ps s)
  show ?case
  proof (cases "visit k h p s")
    case (Inl x)
    with "4.IH"(1) [OF "4.prems"] show ?thesis by auto
  next
    case (Inr s')
    from visit_grows(1) [OF Inr] have "card (unvisited h (fst s')) \<le> card (unvisited h (fst s))"
      by (rule unvisited_mono)
    with "4.prems" have "card (unvisited h (fst s')) < k" by simp
    from "4.IH"(2) [OF Inr this] Inr show ?thesis by simp
  qed
qed

lemma DFSVisit_fuel: "DFSVisit h heads \<noteq> Inl Fuel_Exhausted"
proof -
  have "card (unvisited h (fst ([], []))) \<le> length h"
    using card_mono [of "{..<length h}" "unvisited h []"] by (auto simp: unvisited_def)
  then have "card (unvisited h (fst ([], []))) < Suc (length h)" by simp
  from visit_fuel_enough(2) [OF this] show ?thesis
    by (auto simp: DFSVisit_def split: sum.splits)
qed

lemma visit_more_fuel:
  "visit k h p s = r \<Longrightarrow> r \<noteq> Inl Fuel_Exhausted \<Longrightarrow> visit (Suc k) h p s = r"
  "visit_all k h ps s = r \<Longrightarrow> r \<noteq> Inl Fuel_Exhausted \<Longrightarrow> visit_all (Suc k) h ps s = r"
proof (induction k h p s and k h ps s arbitrary: r and r rule: visit_visit_all.induct)
  case (1 h p s)
  then show ?case by simp
next
  case (2 k h p s)
  show ?case
  proof (cases "p \<in> set (fst s)")
    case True
    with "2.prems" show ?thesis by simp
  next
    case False
    show ?thesis
    proof (cases "deref h p")
      case (Inl x)
      with False "2.prems" show ?thesis by simp
    next
      case (Inr n)
      let ?r0 = "visit_all k h (map node (inputs n) @ control_deps n) (p # fst s, snd s)"
      from "2.prems" False Inr have "?r0 \<noteq> Inl Fuel_Exhausted"
        by (auto split: sum.splits)
      from "2.IH" [OF False Inr refl this] "2.prems" False Inr show ?thesis
        by simp
    qed
  qed
next
  case (3 k h s)
  then show ?case by simp
next
  case (4 k h p ps s)
  show ?case
  proof (cases "visit k h p s")
    case (Inl x)
    with "4.prems" have r: "r = Inl x" and "Inl x \<noteq> (Inl Fuel_Exhausted :: error + _)" by auto
    with "4.IH"(1) [OF Inl] have v: "visit (Suc k) h p s = Inl x" by blast
    have "visit_all (Suc k) h (p # ps) s = Inl x"
      unfolding visit_all.simps(2) [of "Suc k"] v by simp
    with r show ?thesis by simp
  next
    case (Inr s')
    from "4.IH"(1) [OF Inr] have v: "visit (Suc k) h p s = Inr s'" by blast
    from "4.prems" Inr have "visit_all k h ps s' = r" by simp
    from "4.IH"(2) [OF Inr this "4.prems"(2)] have "visit_all (Suc k) h ps s' = r" .
    then show ?thesis unfolding visit_all.simps(2) [of "Suc k"] v by simp
  qed
qed

lemma visit_all_fuel_add:
  "visit_all k h ps s = r \<Longrightarrow> r \<noteq> Inl Fuel_Exhausted \<Longrightarrow> visit_all (k + m) h ps s = r"
proof (induction m)
  case 0
  then show ?case by simp
next
  case (Suc m)
  from Suc.IH [OF Suc.prems] have "visit_all (k + m) h ps s = r" .
  from visit_more_fuel(2) [OF this Suc.prems(2)] show ?case by simp
qed

subsection \<open>The scatter loop\<close>

lemma keys_scatter: "scatter og ins gs = Inr og' \<Longrightarrow> keys og' = keys og"
  by (induction og ins gs rule: scatter.induct) (auto simp: keys_slot_put split: sum.splits)

lemma scatter_short: "length gs < length ins \<Longrightarrow> \<exists>x. scatter og ins gs = Inl x"
  by (induction og ins gs rule: scatter.induct) (auto split: sum.splits)

lemma scatter_appends:
  "scatter og ins gs = Inr og' \<Longrightarrow> slot_get og e = Inr ge \<Longrightarrow>
     slot_get og' e = Inr (ge\<lparr>grads := grads ge @ contributions e ins gs\<rparr>)"
proof (induction og ins gs arbitrary: ge rule: scatter.induct)
  case (1 og gs)
  then show ?case by (simp add: contributions_def)
next
  case (2 og i "is")
  then show ?case by simp
next
  case (3 og i "is" g gs)
  from "3.prems"(1) obtain e0 where e0: "slot_get og i = Inr e0"
    and rest: "scatter (slot_put og i (e0\<lparr>grads := grads e0 @ [g]\<rparr>)) is gs = Inr og'"
    by (auto split: sum.splits)
  show ?case
  proof (cases "slot_key i = slot_key e")
    case True
    with e0 "3.prems"(2) have "e0 = ge" by (simp add: slot_get_cong [OF True])
    have "slot_get (slot_put og i (e0\<lparr>grads := grads e0 @ [g]\<rparr>)) e
        = Inr (e0\<lparr>grads := grads e0 @ [g]\<rparr>)"
      using slot_get_put_same [OF e0] slot_get_cong [OF True [symmetric]] by simp
    from "3.IH" [OF e0 rest this] True \<open>e0 = ge\<close> show ?thesis
      by (simp add: contributions_def)
  next
    case False
    then have "slot_get (slot_put og i (e0\<lparr>grads := grads e0 @ [g]\<rparr>)) e = Inr ge"
      using "3.prems"(2) by (simp add: slot_get_put_other)
    from "3.IH" [OF e0 rest this] False show ?thesis
      by (simp add: contributions_def)
  qed
qed

subsection \<open>Fan-in\<close>

lemma DFSVisit_diamond:
  "DFSVisit (diamond opf opg opy @ r) [ent 3] = Inr [Some 0, Some 1, Some 2, Some 3]"
proof -
  have "Suc (length (diamond opf opg opy @ r)) = Suc (Suc (Suc (Suc (Suc (length r)))))"
    by (simp add: diamond_def)
  then show ?thesis
    by (simp add: DFSVisit_def diamond_def deref_def ent_def variable_node_def op_node_def)
qed

lemma diamond_gradient:
  assumes "FGradient_map E opy = Some Gy" "FGradient_map E opg = Some Gg"
    "FGradient_map E opf = Some Gf"
    and "\<forall>n. num_outputs E n = 1"
    and "registered E ''__ewise_sum__''"
    and "Gy (Some 3) [seed] (diamond opf opg opy @ r0)
           = Inr ([dyf, dyg], diamond opf opg opy @ r1)"
    and "Gg (Some 2) [dyg] (diamond opf opg opy @ r1) = Inr ([cg], diamond opf opg opy @ r2)"
    and "Gf (Some 1) [dyf] (diamond opf opg opy @ r2) = Inr ([cf], diamond opf opg opy @ r3)"
  shows "Gradient E (request [ent 3] [seed] [ent 0]) (diamond opf opg opy @ r0) =
     Inr (\<lparr>outputs = [ent (4 + length r3)], attrs = no_attrs\<rparr>,
          diamond opf opg opy @ r3 @
            [\<lparr>op = Some ''__ewise_sum__'', name = [], inputs = [cg, cf],
              control_deps = []\<rparr>])"
  using assms(6,7,8)
  apply (simp add: Gradient_def Gradient_run_def request_def DFSVisit_diamond assms(1-5))
  apply (simp add: diamond_def alloc_slots_def deref_def ent_def variable_node_def op_node_def
      GradEntry_init_def slot_get_def slot_put_def assms(1-5) backward_step_def
      call_grad_fun_def is_variable_def DefaultAggregateGradient_def moved_from_def
      take_grad_def aggregate_if_needed_def Node_Create_def Op_Get_def)
  done

text \<open>
  Claim C2. The scatter loop appends: after it, the slot of an entry holds the gradients
  it held before, followed by the returned gradients of the inputs that address this
  slot, in the order of the inputs. Hence in the diamond, where the gradient function of
  \<open>y\<close> returns \<open>dyf\<close> and \<open>dyg\<close> for its inputs \<open>f\<close> and \<open>g\<close>, the one of \<open>g\<close>
  returns \<open>cg\<close> for \<open>x\<close> and the one of \<open>f\<close> returns \<open>cf\<close> for \<open>x\<close>, the gradient
  of \<open>x\<close> is the output of a new \<open>__ewise_sum__\<close> node with the inputs \<open>cg\<close> and \<open>cf\<close>:
  \<open>g\<close> is visited before \<open>f\<close> on the way back. The gradient functions are any
  functions that succeed and leave the four nodes in place.
\<close>

theorem scatter_accumulates:
  assumes "FGradient_map E opy = Some Gy" "FGradient_map E opg = Some Gg"
    "FGradient_map E opf = Some Gf"
    and "\<forall>n. num_outputs E n = 1"
    and "registered E ''__ewise_sum__''"
    and "Gy (Some 3) [seed] (diamond opf opg opy @ r0)
           = Inr ([dyf, dyg], diamond opf opg opy @ r1)"
    and "Gg (Some 2) [dyg] (diamond opf opg opy @ r1) = Inr ([cg], diamond opf opg opy @ r2)"
    and "Gf (Some 1) [dyf] (diamond opf opg opy @ r2) = Inr ([cf], diamond opf opg opy @ r3)"
  shows "(\<forall>og ins gs og' e ge.
            scatter og ins gs = Inr og' \<and> slot_get og e = Inr ge \<longrightarrow>
            slot_get og' e = Inr (ge\<lparr>grads := grads ge @ contributions e ins gs\<rparr>))
    \<and> Gradient E (request [ent 3] [seed] [ent 0]) (diamond opf opg opy @ r0) =
        Inr (\<lparr>outputs = [ent (4 + length r3)], attrs = no_attrs\<rparr>,
             diamond opf opg opy @ r3 @
               [\<lparr>op = Some ''__ewise_sum__'', name = [], inputs = [cg, cf],
                 control_deps = []\<rparr>])"
  using scatter_appends diamond_gradient [OF assms] by blast

theorem scatter_accumulates_witness:
  "scatter one_slot_table [ent 0, ent 0] [ent 1, ent 2]
     = Inr [(Some 0, [GradEntry_init\<lparr>grads := [ent 1, ent 2]\<rparr>])]
   \<and> Gradient example_env (request [ent 3] [ent 4] [ent 0])
       (diamond ''f'' ''g'' ''add'' @ [variable_node ''seed'']) =
      Inr (\<lparr>outputs = [ent 7], attrs = no_attrs\<rparr>,
           diamond ''f'' ''g'' ''add'' @
             [variable_node ''seed'', op_node ''g_grad'' [] [ent 4, ent 2],
              op_node ''f_grad'' [] [ent 4, ent 1],
              \<lparr>op = Some ''__ewise_sum__'', name = [], inputs = [ent 5, ent 6],
                control_deps = []\<rparr>])"
proof -
  let ?D = "diamond ''f'' ''g'' ''add''"
  let ?r0 = "[variable_node ''seed'']"
  let ?r2 = "[variable_node ''seed'', op_node ''g_grad'' [] [ent 4, ent 2]]"
  let ?r3 = "[variable_node ''seed'', op_node ''g_grad'' [] [ent 4, ent 2],
              op_node ''f_grad'' [] [ent 4, ent 1]]"
  have a: "FGradient_map example_env ''add'' = Some both_grad"
    "FGradient_map example_env ''g'' = Some (unary_grad ''g_grad'')"
    "FGradient_map example_env ''f'' = Some (unary_grad ''f_grad'')"
    "\<forall>n. num_outputs example_env n = 1" "registered example_env ''__ewise_sum__''"
    by (simp_all add: example_env_def)
  have b: "both_grad (Some 3) [ent 4] (?D @ ?r0) = Inr ([ent 4, ent 4], ?D @ ?r0)"
    by (simp add: both_grad_def)
  have c: "unary_grad ''g_grad'' (Some 2) [ent 4] (?D @ ?r0) = Inr ([ent 5], ?D @ ?r2)"
    by (simp add: unary_grad_def diamond_def ent_def)
  have d: "unary_grad ''f_grad'' (Some 1) [ent 4] (?D @ ?r2) = Inr ([ent 6], ?D @ ?r3)"
    by (simp add: unary_grad_def diamond_def ent_def)
  have s: "scatter one_slot_table [ent 0, ent 0] [ent 1, ent 2]
     = Inr [(Some 0, [GradEntry_init\<lparr>grads := [ent 1, ent 2]\<rparr>])]"
    by (simp add: one_slot_table_def ent_def slot_get_def slot_put_def GradEntry_init_def)
  from scatter_accumulates [OF a b c d] s show ?thesis by simp
qed

subsection \<open>Gradient lists longer than the inputs\<close>














subsection \<open>The backward loop and the requested gradients\<close>

lemma keys_backward_step:
  "backward_step E agg mm s ptr = Inr s' \<Longrightarrow> keys (fst s') = keys (fst s)"
  by (auto simp: backward_step_def keys_update_present
      split: sum.splits if_splits option.splits prod.splits dest!: keys_scatter)

lemma keys_backward: "backward E agg mm s ps = Inr s' \<Longrightarrow> keys (fst s') = keys (fst s)"
  by (induction ps arbitrary: s) (auto split: sum.splits dest: keys_backward_step)

lemma keys_take_grad: "take_grad agg s e = Inr s' \<Longrightarrow> keys (fst s') = keys (fst s)"
  by (auto simp: take_grad_def aggregate_if_needed_def keys_slot_put split: sum.splits if_splits prod.splits)

lemma keys_take_grads: "take_grads agg s es = Inr s' \<Longrightarrow> keys (fst s') = keys (fst s)"
  by (induction es arbitrary: s) (auto split: sum.splits dest: keys_take_grad)

lemma length_take_grad:
  "take_grad agg s e = Inr s' \<Longrightarrow> length (snd (snd s')) = Suc (length (snd (snd s)))"
  by (auto simp: take_grad_def aggregate_if_needed_def split: sum.splits if_splits prod.splits)

lemma length_take_grads:
  "take_grads agg s es = Inr s' \<Longrightarrow> length (snd (snd s')) = length (snd (snd s)) + length es"
  by (induction es arbitrary: s) (auto split: sum.splits dest: length_take_grad)

lemma Gradient_outputs_length:
  assumes "Gradient E src h = Inr (g, h')"
  shows "\<exists>xs. grad_xs (attrs src) = Some xs \<and> length (outputs g) = length xs
           \<and> attrs g = no_attrs"
  using assms
  by (auto simp: Gradient_def Gradient_run_def Let_def
      split: option.splits sum.splits if_splits prod.splits dest!: length_take_grads)

subsection \<open>The mirror map\<close>

lemma mirror_all_false:
  "list_all (valid_ptr h) ps \<Longrightarrow>
     \<exists>mm. mirror_all (\<lambda>n. 0) (h, m) ps = Inr (h, mm)
       \<and> (\<forall>p. map_of mm p = (if p \<in> set ps then Some p else map_of m p))"
proof (induction ps arbitrary: m)
  case Nil
  then show ?case by simp
next
  case (Cons p ps)
  from Cons.prems obtain n where n: "deref h p = Inr n" by (auto dest: valid_deref)
  from Cons.prems have "list_all (valid_ptr h) ps" by simp
  from Cons.IH [OF this, of "AList.update p p m"]
  obtain mm where mm: "mirror_all (\<lambda>n. 0) (h, AList.update p p m) ps = Inr (h, mm)"
    "\<forall>q. map_of mm q = (if q \<in> set ps then Some q else map_of (AList.update p p m) q)"
    by blast
  with n show ?case by (auto simp: mirror_step_def update_conv')
qed

lemma call_grad_fun_identity_map:
  "map_of mm ptr = Some ptr \<Longrightarrow> call_grad_fun E mm ptr ogs h = call_grad_fun E [] ptr ogs h"
  by (auto simp: call_grad_fun_def mirror_at_def split: sum.splits option.splits)

lemma backward_step_identity_map:
  "map_of mm ptr = Some ptr \<Longrightarrow> backward_step E agg mm s ptr = backward_step E agg [] s ptr"
  unfolding backward_step_def call_grad_fun_identity_map [of mm ptr] by (rule refl)

lemma backward_identity_map:
  "\<forall>p \<in> set ps. map_of mm p = Some p \<Longrightarrow> backward E agg mm s ps = backward E agg [] s ps"
  by (induction ps arbitrary: s) (auto simp: backward_step_identity_map split: sum.splits)

lemma Gradient_run_mirror_false:
  "map_sum id (\<lambda>st. (ret_outputs st, store st))
      (Gradient_run E (with_mirror (Some (\<lambda>n. 0)) src) h) =
   map_sum id (\<lambda>st. (ret_outputs st, store st))
      (Gradient_run E (with_mirror None src) h)"
proof (cases "grad_ys (attrs src)")
  case None
  then show ?thesis by (simp add: Gradient_run_def with_mirror_def)
next
  case (Some ys)
  show ?thesis
  proof (cases "DFSVisit h ys")
    case (Inl x)
    with Some show ?thesis by (simp add: Gradient_run_def with_mirror_def split: option.splits)
  next
    case (Inr topo)
    from DFSVisit_valid [OF Inr] have v: "list_all (valid_ptr h) topo" .
    from mirror_all_false [OF v, of "[]"] obtain mm where
      mm: "mirror_all (\<lambda>n. 0) (h, []) topo = Inr (h, mm)"
      "\<forall>p. map_of mm p = (if p \<in> set topo then Some p else None)" by auto
    then have "\<forall>p \<in> set (rev topo). map_of mm p = Some p" by simp
    from backward_identity_map [OF this]
    have "\<And>agg s. backward E agg mm s (rev topo) = backward E agg [] s (rev topo)" .
    with Some Inr mm(1) show ?thesis
      by (simp add: Gradient_run_def with_mirror_def Let_def
          split: option.splits sum.splits prod.splits)
  qed
qed

text \<open>
  Claim C7. With a mirror function that is false on every node the pass returns the same
  graph, in the same store, as with no mirror function: the mirror map sends every node
  of the order to itself, so every gradient function receives the node it would receive
  without a mirror map.
\<close>

theorem mirror_false_is_no_mirror:
  assumes "\<forall>n. mirror_fun n = 0"
  shows "Gradient E (with_mirror (Some mirror_fun) src) h = Gradient E (with_mirror None src) h"
proof -
  from assms have "mirror_fun = (\<lambda>n. 0)" by (simp add: fun_eq_iff)
  with Gradient_run_mirror_false [of E src h] show ?thesis
    by (auto simp: Gradient_def map_sum_def split: sum.splits)
qed

theorem mirror_false_is_no_mirror_witness:
  "Gradient example_env (with_mirror (Some (\<lambda>n. 0)) (request [ent 1] [ent 2] [ent 0])) chain
     = Gradient example_env (with_mirror None (request [ent 1] [ent 2] [ent 0])) chain
   \<and> Gradient example_env (with_mirror None (request [ent 1] [ent 2] [ent 0])) chain
     = Inr (\<lparr>outputs = [ent 4], attrs = no_attrs\<rparr>,
            chain @ [op_node ''f_grad'' [] [ent 2, ent 1]])"
proof -
  have "\<forall>n::Node. (\<lambda>n. 0::int) n = 0" by simp
  from mirror_false_is_no_mirror [OF this, of example_env "request [ent 1] [ent 2] [ent 0]" chain]
  show ?thesis
    by (simp add: Gradient_def Gradient_run_def example_env_def request_def chain_def
        with_mirror_def ent_def variable_node_def op_node_def DFSVisit_def deref_def
        alloc_slots_def GradEntry_init_def slot_get_def slot_put_def backward_step_def
        call_grad_fun_def is_variable_def unary_grad_def DefaultAggregateGradient_def
        take_grad_def aggregate_if_needed_def moved_from_def no_attrs_def)
qed

lemma mirror_step_new:
  "mirror_step mf s p = Inr s' \<Longrightarrow> length h \<le> length (fst s) \<Longrightarrow> copies_are_new h (snd s)
    \<Longrightarrow> length h \<le> length (fst s') \<and> copies_are_new h (snd s')"
  unfolding copies_are_new_def
  by (auto simp: mirror_step_def Node_Create_def update_conv' split: sum.splits if_splits)
     blast+

lemma mirror_all_new:
  "mirror_all mf s ps = Inr s' \<Longrightarrow> length h \<le> length (fst s) \<Longrightarrow> copies_are_new h (snd s)
    \<Longrightarrow> length h \<le> length (fst s') \<and> copies_are_new h (snd s')"
proof (induction ps arbitrary: s)
  case Nil
  then show ?case by simp
next
  case (Cons p ps)
  from Cons.prems(1) obtain s1 where s1: "mirror_step mf s p = Inr s1"
    and rest: "mirror_all mf s1 ps = Inr s'" by (auto split: sum.splits)
  from mirror_step_new [OF s1 Cons.prems(2,3)] Cons.IH [OF rest] show ?case by blast
qed

lemma Gradient_run_keys:
  assumes "Gradient_run E src h = Inr st"
  shows "list_all (valid_ptr h) (map fst (output_grads st)) \<and> copies_are_new h (mirror_map st)"
proof -
  from assms obtain ys ys_out_grad xs topo og0 og1 h1 mm og2 h2 og3 h3 outs agg where
    dfs: "DFSVisit h ys = Inr topo" and al: "alloc_all E h [] topo = Inr og0"
    and ini: "init_seeds og0 ys ys_out_grad = Inr og1"
    and mir: "(case grad_mirror_fun (attrs src) of None \<Rightarrow> Inr (h, [])
            | Some mirror_fun \<Rightarrow> mirror_all mirror_fun (h, []) topo) = Inr (h1, mm)"
    and bw: "backward E agg mm (og1, h1) (rev topo) = Inr (og2, h2)"
    and tk: "take_grads agg (og2, h2, []) xs = Inr (og3, h3, outs)"
    and st: "st = \<lparr>output_grads = og3, mirror_map = mm, ret_outputs = outs, store = h3\<rparr>"
    by (auto simp: Gradient_run_def Let_def split: option.splits sum.splits if_splits prod.splits)
  have "keys og3 = keys og2" using keys_take_grads [OF tk] by simp
  also have "\<dots> = keys og1" using keys_backward [OF bw] by simp
  also have "\<dots> = keys og0" by (rule keys_init_seeds [OF ini])
  also have "\<dots> = set topo" using keys_alloc_all [OF al] by (simp add: keys_def)
  finally have "set (map fst og3) = set topo" by (simp add: keys_def)
  with DFSVisit_valid [OF dfs] have k: "list_all (valid_ptr h) (map fst og3)"
    unfolding list_all_iff by blast
  have "copies_are_new h mm"
  proof (cases "grad_mirror_fun (attrs src)")
    case None
    with mir show ?thesis by (simp add: copies_are_new_def)
  next
    case (Some mf)
    with mir have "mirror_all mf (h, []) topo = Inr (h1, mm)" by simp
    from mirror_all_new [OF this, of h] show ?thesis by (simp add: copies_are_new_def)
  qed
  with k st show ?thesis by simp
qed

lemma Gradient_run_slots:
  assumes "Gradient_run E src h = Inr st"
  shows "(\<forall>k \<in> keys (output_grads st). valid_ptr h k)
    \<and> (\<forall>p q. map_of (mirror_map st) p = Some q \<and> q \<noteq> p \<longrightarrow>
          \<not> valid_ptr h q \<and> q \<notin> keys (output_grads st)
          \<and> (\<forall>e. node e = q \<longrightarrow> slot_get (output_grads st) e = Inl Undefined_Behaviour))"
proof -
  from Gradient_run_keys [OF assms]
  have k: "\<forall>k \<in> keys (output_grads st). valid_ptr h k"
    and c: "copies_are_new h (mirror_map st)"
    by (auto simp: list_all_iff keys_def)
  have "\<not> valid_ptr h q \<and> q \<notin> keys (output_grads st)
      \<and> (\<forall>e. node e = q \<longrightarrow> slot_get (output_grads st) e = Inl Undefined_Behaviour)"
    if "map_of (mirror_map st) p = Some q" "q \<noteq> p" for p q
  proof -
    from c that obtain a where "q = Some a" "length h \<le> a"
      unfolding copies_are_new_def by blast
    then have nv: "\<not> valid_ptr h q" by (simp add: valid_ptr_def)
    with k have nk: "q \<notin> keys (output_grads st)" by blast
    then have "map_of (output_grads st) q = None" by (simp add: map_of_None_keys)
    then have "\<forall>e. node e = q \<longrightarrow> slot_get (output_grads st) e = Inl Undefined_Behaviour"
      by (simp add: slot_get_def)
    with nv nk show ?thesis by blast
  qed
  with k show ?thesis by blast
qed

text \<open>
  One step of the backward loop on a node that is no variable: the gradient function of
  the node's operator is called with the node itself when the mirror map is empty and
  with the node's image under the mirror map otherwise, and the scatter loop runs over
  the inputs of the node of the order.
\<close>

lemma backward_step_scatters:
  assumes "backward_step E af mm s ptr = Inr s'" and "deref (snd s) ptr = Inr n"
    and "\<not> is_variable n"
  shows "\<exists>slots slots' outs h1 n1 opname grad_fun q gs n2.
       map_of (fst s) ptr = Some slots
     \<and> agg_slots af slots (snd s) = Inr (slots', outs, h1)
     \<and> deref h1 ptr = Inr n1 \<and> op n1 = Some opname \<and> FGradient_map E opname = Some grad_fun
     \<and> (if mm = [] then q = ptr else map_of mm ptr = Some q)
     \<and> grad_fun q outs h1 = Inr (gs, snd s')
     \<and> deref (snd s') ptr = Inr n2
     \<and> keys (fst s') = keys (fst s)
     \<and> (\<forall>e ge. slot_get (AList.update ptr slots' (fst s)) e = Inr ge \<longrightarrow>
           slot_get (fst s') e = Inr (ge\<lparr>grads := grads ge @ contributions e (inputs n2) gs\<rparr>))"
proof -
  from assms obtain slots slots' outs h1 gs h2 n2 og' where
    slots: "map_of (fst s) ptr = Some slots"
    and agg: "agg_slots af slots (snd s) = Inr (slots', outs, h1)"
    and call: "call_grad_fun E mm ptr outs h1 = Inr (gs, h2)"
    and n2: "deref h2 ptr = Inr n2"
    and sc: "scatter (AList.update ptr slots' (fst s)) (inputs n2) gs = Inr og'"
    and s': "s' = (og', h2)"
    by (auto simp: backward_step_def split: sum.splits option.splits)
  from call obtain n1 opname grad_fun q where n1: "deref h1 ptr = Inr n1"
    and opn: "op n1 = Some opname" and gf: "FGradient_map E opname = Some grad_fun"
    and q: "(if length mm = 0 then Inr ptr else mirror_at mm ptr) = Inr q"
    and run: "grad_fun q outs h1 = Inr (gs, h2)"
    by (auto simp: call_grad_fun_def split: sum.splits option.splits)
  from q have q': "if mm = [] then q = ptr else map_of mm ptr = Some q"
    by (auto simp: mirror_at_def split: if_splits option.splits)
  from keys_scatter [OF sc] slots have k: "keys og' = keys (fst s)"
    by (simp add: keys_update_present)
  have sl: "\<forall>e ge. slot_get (AList.update ptr slots' (fst s)) e = Inr ge \<longrightarrow>
      slot_get (fst s') e = Inr (ge\<lparr>grads := grads ge @ contributions e (inputs n2) gs\<rparr>)"
    using scatter_appends [OF sc] by (simp add: s')
  show ?thesis
    apply (rule exI [of _ slots], rule exI [of _ slots'], rule exI [of _ outs])
    apply (rule exI [of _ h1], rule exI [of _ n1], rule exI [of _ opname])
    apply (rule exI [of _ grad_fun], rule exI [of _ q], rule exI [of _ gs], rule exI [of _ n2])
    using slots agg n1 opn gf q' run n2 k sl
    apply (simp add: s')
    done
qed

text \<open>The pass on the chain when every node is mirrored.\<close>

lemma DFSVisit_chain_of:
  "DFSVisit (chain_of opf @ r) [ent (Suc 0)] = Inr [Some 0, Some (Suc 0)]"
proof -
  have "Suc (length (chain_of opf @ r)) = Suc (Suc (Suc (length r)))"
    by (simp add: chain_of_def)
  then show ?thesis
    by (simp add: DFSVisit_def chain_of_def deref_def ent_def variable_node_def op_node_def)
qed

lemma update_second_last:
  "(xs @ [a, b])[Suc (length xs) := v] = xs @ [a, v]"
  by (induction xs) auto

lemma mirrored_chain_run:
  assumes "FGradient_map E opf = Some Gf" and "\<forall>n. num_outputs E n = 1"
    and "\<forall>n. mirror_fun n \<noteq> 0"
    and "Gf (Some (length r0 + 3)) [seed] (mirrored_chain opf r0)
           = Inr ([cx], mirrored_chain opf r0 @ r1)"
  shows "Gradient_run E (with_mirror (Some mirror_fun) (request [ent 1] [seed] [ent 0]))
           (chain_of opf @ r0) =
     Inr \<lparr>output_grads =
            [(Some 0, [\<lparr>sum_entry = moved_from cx, grads = [moved_from cx]\<rparr>]),
             (Some 1, [\<lparr>sum_entry = seed, grads = [moved_from seed]\<rparr>])],
          mirror_map = [(Some 0, Some (length r0 + 2)), (Some 1, Some (length r0 + 3))],
          ret_outputs = [cx],
          store = mirrored_chain opf r0 @ r1\<rparr>"
proof -
  have n2: "length r0 + 2 = Suc (Suc (length r0))"
    and n3: "length r0 + 3 = Suc (Suc (Suc (length r0)))"
    by simp_all
  from assms(4) show ?thesis
    unfolding n2 n3
    apply (simp add: Gradient_run_def request_def with_mirror_def DFSVisit_chain_of assms(1-3))
    apply (simp add: chain_of_def mirrored_chain_def alloc_slots_def deref_def ent_def
      variable_node_def op_node_def GradEntry_init_def slot_get_def slot_put_def assms(1-3)
      backward_step_def call_grad_fun_def is_variable_def DefaultAggregateGradient_def
      take_grad_def aggregate_if_needed_def Node_Create_def mirror_step_def mirror_at_def
      update_second_last)
    done
qed

text \<open>
  Claim C10. The table of pending gradients is keyed by nodes of the source graph only.
  When a run completes, every key of the table is a node that was in the store before
  the pass, and every copy in the mirror map is a node that the pass created: a copy is
  no key of the table, has no slot and receives no gradient. In a step of the backward
  loop on a node \<open>ptr\<close> that is no variable, the node argument of the gradient function is
  the image \<open>q\<close> of \<open>ptr\<close> under the mirror map (\<open>ptr\<close> itself when the map is empty), and
  the gradients \<open>gs\<close> that it returns are appended to the slots of the inputs of \<open>ptr\<close>,
  not of \<open>q\<close>: a slot holds afterwards what it held after the aggregation, followed by
  the gradients of the inputs of \<open>ptr\<close> that address it, and the keys are unchanged.
  Hence on the chain with every node mirrored, for any operator, seed, other nodes \<open>r0\<close>
  and any gradient function that, called with the copy of \<open>y\<close>, returns \<open>cx\<close> and leaves
  the nodes in place: the pass returns \<open>cx\<close> as the gradient of \<open>x\<close>, and the table has
  the two keys \<open>x\<close> and \<open>y\<close>, the slot of \<open>x\<close> having received \<open>cx\<close>.
\<close>

theorem slots_belong_to_source_nodes:
  assumes "FGradient_map E opf = Some Gf" and "\<forall>n. num_outputs E n = 1"
    and "\<forall>n. mirror_fun n \<noteq> 0"
    and "Gf (Some (length r0 + 3)) [seed] (mirrored_chain opf r0)
           = Inr ([cx], mirrored_chain opf r0 @ r1)"
  shows "(\<forall>E' src h st. Gradient_run E' src h = Inr st \<longrightarrow>
            (\<forall>k \<in> keys (output_grads st). valid_ptr h k)
          \<and> (\<forall>p q. map_of (mirror_map st) p = Some q \<and> q \<noteq> p \<longrightarrow>
                \<not> valid_ptr h q \<and> q \<notin> keys (output_grads st)
                \<and> (\<forall>e. node e = q \<longrightarrow>
                      slot_get (output_grads st) e = Inl Undefined_Behaviour)))
    \<and> (\<forall>E' af mm s ptr s' n.
          backward_step E' af mm s ptr = Inr s' \<and> deref (snd s) ptr = Inr n
            \<and> \<not> is_variable n \<longrightarrow>
          (\<exists>slots slots' outs h1 n1 opname grad_fun q gs n2.
              map_of (fst s) ptr = Some slots
            \<and> agg_slots af slots (snd s) = Inr (slots', outs, h1)
            \<and> deref h1 ptr = Inr n1 \<and> op n1 = Some opname
            \<and> FGradient_map E' opname = Some grad_fun
            \<and> (if mm = [] then q = ptr else map_of mm ptr = Some q)
            \<and> grad_fun q outs h1 = Inr (gs, snd s')
            \<and> deref (snd s') ptr = Inr n2
            \<and> keys (fst s') = keys (fst s)
            \<and> (\<forall>e ge. slot_get (AList.update ptr slots' (fst s)) e = Inr ge \<longrightarrow>
                  slot_get (fst s') e
                    = Inr (ge\<lparr>grads := grads ge @ contributions e (inputs n2) gs\<rparr>))))
    \<and> Gradient_run E (with_mirror (Some mirror_fun) (request [ent 1] [seed] [ent 0]))
          (chain_of opf @ r0) =
        Inr \<lparr>output_grads =
               [(Some 0, [\<lparr>sum_entry = moved_from cx, grads = [moved_from cx]\<rparr>]),
                (Some 1, [\<lparr>sum_entry = seed, grads = [moved_from seed]\<rparr>])],
             mirror_map = [(Some 0, Some (length r0 + 2)), (Some 1, Some (length r0 + 3))],
             ret_outputs = [cx],
             store = mirrored_chain opf r0 @ r1\<rparr>"
proof -
  have A: "\<forall>E' src h st. Gradient_run E' src h = Inr st \<longrightarrow>
            (\<forall>k \<in> keys (output_grads st). valid_ptr h k)
          \<and> (\<forall>p q. map_of (mirror_map st) p = Some q \<and> q \<noteq> p \<longrightarrow>
                \<not> valid_ptr h q \<and> q \<notin> keys (output_grads st)
                \<and> (\<forall>e. node e = q \<longrightarrow>
                      slot_get (output_grads st) e = Inl Undefined_Behaviour))"
    using Gradient_run_slots by blast
  have B: "\<forall>E' af mm s ptr s' n.
          backward_step E' af mm s ptr = Inr s' \<and> deref (snd s) ptr = Inr n
            \<and> \<not> is_variable n \<longrightarrow>
          (\<exists>slots slots' outs h1 n1 opname grad_fun q gs n2.
              map_of (fst s) ptr = Some slots
            \<and> agg_slots af slots (snd s) = Inr (slots', outs, h1)
            \<and> deref h1 ptr = Inr n1 \<and> op n1 = Some opname
            \<and> FGradient_map E' opname = Some grad_fun
            \<and> (if mm = [] then q = ptr else map_of mm ptr = Some q)
            \<and> grad_fun q outs h1 = Inr (gs, snd s')
            \<and> deref (snd s') ptr = Inr n2
            \<and> keys (fst s') = keys (fst s)
            \<and> (\<forall>e ge. slot_get (AList.update ptr slots' (fst s)) e = Inr ge \<longrightarrow>
                  slot_get (fst s') e
                    = Inr (ge\<lparr>grads := grads ge @ contributions e (inputs n2) gs\<rparr>)))"
  proof (intro allI impI)
    fix E' :: env and af mm s ptr s' n
    assume "backward_step E' af mm s ptr = Inr s' \<and> deref (snd s) ptr = Inr n
        \<and> \<not> is_variable n"
    then have h: "backward_step E' af mm s ptr = Inr s'" "deref (snd s) ptr = Inr n"
      "\<not> is_variable n"
      by simp_all
    show "\<exists>slots slots' outs h1 n1 opname grad_fun q gs n2.
              map_of (fst s) ptr = Some slots
            \<and> agg_slots af slots (snd s) = Inr (slots', outs, h1)
            \<and> deref h1 ptr = Inr n1 \<and> op n1 = Some opname
            \<and> FGradient_map E' opname = Some grad_fun
            \<and> (if mm = [] then q = ptr else map_of mm ptr = Some q)
            \<and> grad_fun q outs h1 = Inr (gs, snd s')
            \<and> deref (snd s') ptr = Inr n2
            \<and> keys (fst s') = keys (fst s)
            \<and> (\<forall>e ge. slot_get (AList.update ptr slots' (fst s)) e = Inr ge \<longrightarrow>
                  slot_get (fst s') e
                    = Inr (ge\<lparr>grads := grads ge @ contributions e (inputs n2) gs\<rparr>))"
      by (rule backward_step_scatters [OF h])
  qed
  show ?thesis
    by (rule conjI [OF A conjI [OF B mirrored_chain_run [OF assms]]])
qed

theorem slots_belong_to_source_nodes_witness:
  "Gradient_run example_env (with_mirror (Some (\<lambda>n. 1)) (request [ent 1] [ent 2] [ent 0]))
      (chain_of ''f'' @ [variable_node ''seed'', variable_node ''z'']) =
     Inr \<lparr>output_grads =
            [(Some 0, [\<lparr>sum_entry = null_entry, grads = [null_entry]\<rparr>]),
             (Some 1, [\<lparr>sum_entry = ent 2, grads = [null_entry]\<rparr>])],
          mirror_map = [(Some 0, Some 4), (Some 1, Some 5)],
          ret_outputs = [ent 6],
          store = mirrored_chain ''f'' [variable_node ''seed'', variable_node ''z'']
                    @ [op_node ''f_grad'' [] [ent 2, ent 5]]\<rparr>
   \<and> Some 5 \<notin> keys [(Some 0, [\<lparr>sum_entry = null_entry, grads = [null_entry]\<rparr>]),
                     (Some (1::nat), [\<lparr>sum_entry = ent 2, grads = [null_entry]\<rparr>])]
   \<and> slot_get [(Some 0, [\<lparr>sum_entry = null_entry, grads = [null_entry]\<rparr>]),
               (Some 1, [\<lparr>sum_entry = ent 2, grads = [null_entry]\<rparr>])] (ent 5)
       = Inl Undefined_Behaviour
   \<and> backward_step example_env (DefaultAggregateGradient example_env)
         [(Some 0, Some 4), (Some 1, Some 5)]
         ([(Some 0, [GradEntry_init]), (Some 1, [GradEntry_init\<lparr>grads := [ent 2]\<rparr>])],
          mirrored_chain ''f'' [variable_node ''seed'', variable_node ''z''])
         (Some 1) =
       Inr ([(Some 0, [GradEntry_init\<lparr>grads := [ent 6]\<rparr>]),
             (Some 1, [\<lparr>sum_entry = ent 2, grads = [null_entry]\<rparr>])],
            mirrored_chain ''f'' [variable_node ''seed'', variable_node ''z'']
              @ [op_node ''f_grad'' [] [ent 2, ent 5]])"
proof -
  let ?r0 = "[variable_node ''seed'', variable_node ''z'']"
  let ?og = "[(Some 0, [\<lparr>sum_entry = null_entry, grads = [null_entry]\<rparr>]),
              (Some (1::nat), [\<lparr>sum_entry = ent 2, grads = [null_entry]\<rparr>])]"
  let ?st = "\<lparr>output_grads = ?og,
      mirror_map = [(Some 0, Some 4), (Some 1, Some 5)],
      ret_outputs = [ent 6],
      store = mirrored_chain ''f'' ?r0 @ [op_node ''f_grad'' [] [ent 2, ent 5]]\<rparr>"
  have a: "FGradient_map example_env ''f'' = Some (unary_grad ''f_grad'')"
    "\<forall>n. num_outputs example_env n = 1" "\<forall>n::Node. (1::int) \<noteq> 0"
    by (simp_all add: example_env_def)
  have b: "unary_grad ''f_grad'' (Some (length ?r0 + 3)) [ent 2] (mirrored_chain ''f'' ?r0)
      = Inr ([ent 6], mirrored_chain ''f'' ?r0 @ [op_node ''f_grad'' [] [ent 2, ent 5]])"
    by (simp add: unary_grad_def mirrored_chain_def chain_of_def ent_def)
  note T = slots_belong_to_source_nodes [OF a b]
  from T have run: "Gradient_run example_env
      (with_mirror (Some (\<lambda>n. 1)) (request [ent 1] [ent 2] [ent 0])) (chain_of ''f'' @ ?r0)
        = Inr ?st"
    by (simp add: moved_from_def ent_def null_entry_def)
  have m: "map_of (mirror_map ?st) (Some 1) = Some (Some 5) \<and> Some 5 \<noteq> Some (1::nat)"
    by simp
  from T [THEN conjunct1, rule_format, OF run, THEN conjunct2, rule_format, OF m]
  have c: "Some 5 \<notin> keys ?og \<and> slot_get ?og (ent 5) = Inl Undefined_Behaviour"
    by (simp add: ent_def)
  have step: "backward_step example_env (DefaultAggregateGradient example_env)
         [(Some 0, Some 4), (Some 1, Some 5)]
         ([(Some 0, [GradEntry_init]), (Some 1, [GradEntry_init\<lparr>grads := [ent 2]\<rparr>])],
          mirrored_chain ''f'' ?r0)
         (Some 1) =
       Inr ([(Some 0, [GradEntry_init\<lparr>grads := [ent 6]\<rparr>]),
             (Some 1, [\<lparr>sum_entry = ent 2, grads = [null_entry]\<rparr>])],
            mirrored_chain ''f'' ?r0 @ [op_node ''f_grad'' [] [ent 2, ent 5]])"
    by (simp add: backward_step_def call_grad_fun_def mirrored_chain_def chain_of_def
        example_env_def deref_def is_variable_def op_node_def variable_node_def ent_def
        null_entry_def GradEntry_init_def DefaultAggregateGradient_def moved_from_def
        mirror_at_def unary_grad_def slot_get_def slot_put_def)
  from run c step show ?thesis
    by simp
qed


subsection \<open>The output list\<close>

text \<open>
  Claim C6. The output list has one entry for each requested entry, in the order of
  the request (\<open>Gradient_outputs_length\<close>), and the returned graph has no attribute.
  The entry at a position is not always the aggregated gradient of the request: the
  result is moved out of the slot into the output list, and a second request of the same
  slot finds the null pointer there, aggregates what is left of the contribution list
  and returns this. In the chain, with \<open>x\<close> requested twice, the second output is the
  null entry.
\<close>

theorem duplicate_request_second_output:
  "Gradient example_env (request [ent 1] [ent 2] [ent 0]) chain
     = Inr (\<lparr>outputs = [ent 4], attrs = no_attrs\<rparr>,
            chain @ [op_node ''f_grad'' [] [ent 2, ent 1]])
   \<and> Gradient example_env (request [ent 1] [ent 2] [ent 0, ent 0]) chain
     = Inr (\<lparr>outputs = [ent 4, null_entry], attrs = no_attrs\<rparr>,
            chain @ [op_node ''f_grad'' [] [ent 2, ent 1]])"
  by (simp add: Gradient_def Gradient_run_def example_env_def request_def chain_def
      ent_def null_entry_def variable_node_def op_node_def DFSVisit_def deref_def
      alloc_slots_def GradEntry_init_def slot_get_def slot_put_def backward_step_def
      call_grad_fun_def is_variable_def unary_grad_def DefaultAggregateGradient_def
      take_grad_def aggregate_if_needed_def moved_from_def)

text \<open>
  Claim C3. A slot is aggregated again when it is requested a second time, since the
  first request leaves the pointer of its \<open>sum\<close> null. With an aggregation function
  that creates a node at every call, the chain with \<open>x\<close> requested twice ends with two
  aggregation nodes over the one contribution \<open>ent 5\<close> of the slot of \<open>x\<close>, at
  the addresses 6 and 7.
\<close>

theorem duplicate_request_aggregates_twice:
  "Gradient example_env (with_agg wrap_agg (request [ent 1] [ent 2] [ent 0, ent 0])) chain
     = Inr (\<lparr>outputs = [ent 6, ent 7], attrs = no_attrs\<rparr>,
            chain @ [op_node ''agg'' [] [ent 2], op_node ''f_grad'' [] [ent 4, ent 1],
                     op_node ''agg'' [] [ent 5], op_node ''agg'' [] [ent 5]])"
  by (simp add: Gradient_def Gradient_run_def example_env_def request_def chain_def
      with_agg_def ent_def variable_node_def op_node_def DFSVisit_def deref_def
      alloc_slots_def GradEntry_init_def slot_get_def slot_put_def backward_step_def
      call_grad_fun_def is_variable_def unary_grad_def wrap_agg_def
      take_grad_def aggregate_if_needed_def moved_from_def)

text \<open>
  Claim C4. The variable \<open>z\<close> of the chain is no ancestor of \<open>y\<close>: the traversal does
  not visit it and the table has no key for it. Requesting its gradient indexes the
  empty vector that \<open>output_grads[z]\<close> creates, which is undefined behaviour; no zero
  node is produced.
\<close>

theorem unreached_request_is_undefined:
  "DFSVisit chain [ent 1] = Inr [Some 0, Some 1]
   \<and> Gradient example_env (request [ent 1] [ent 2] [ent 3]) chain = Inl Undefined_Behaviour"
  by (simp add: Gradient_def Gradient_run_def example_env_def request_def chain_def
      ent_def variable_node_def op_node_def DFSVisit_def deref_def
      alloc_slots_def GradEntry_init_def slot_get_def slot_put_def backward_step_def
      call_grad_fun_def is_variable_def unary_grad_def DefaultAggregateGradient_def
      take_grad_def aggregate_if_needed_def moved_from_def)

subsection \<open>Two runs of the pass\<close>

text \<open>
  Every step of the pass carries stores and tables that are related by a renaming to
  stores and tables that are related by an extension of it.
\<close>

lemma rel_ptr_mono: "r \<subseteq>\<^sub>m r' \<Longrightarrow> rel_ptr r p p' \<Longrightarrow> rel_ptr r' p p'"
  by (auto simp: rel_ptr_def map_le_def dom_def split: option.splits)

lemma rel_ptr_eq: "inj_ren r \<Longrightarrow> rel_ptr r p q \<Longrightarrow> rel_ptr r p' q' \<Longrightarrow> p = p' \<longleftrightarrow> q = q'"
  by (auto simp: rel_ptr_def inj_ren_def split: option.splits)

lemma rel_ptr_None [simp]: "rel_ptr r None p' \<longleftrightarrow> p' = None" "rel_ptr r p None \<longleftrightarrow> p = None"
  by (auto simp: rel_ptr_def split: option.splits)

lemma rel_ptr_Some: "rel_ptr r (Some a) (Some a') \<longleftrightarrow> r a = Some a'"
  by (auto simp: rel_ptr_def)

lemma rel_entry_mono: "r \<subseteq>\<^sub>m r' \<Longrightarrow> rel_entry r e e' \<Longrightarrow> rel_entry r' e e'"
  by (auto simp: rel_entry_def dest: rel_ptr_mono)

lemma rel_entries_mono:
  "r \<subseteq>\<^sub>m r' \<Longrightarrow> list_all2 (rel_entry r) es es' \<Longrightarrow> list_all2 (rel_entry r') es es'"
  by (erule list_all2_mono) (rule rel_entry_mono)

lemma rel_ptrs_mono:
  "r \<subseteq>\<^sub>m r' \<Longrightarrow> list_all2 (rel_ptr r) ps ps' \<Longrightarrow> list_all2 (rel_ptr r') ps ps'"
  by (erule list_all2_mono) (rule rel_ptr_mono)

lemma rel_node_mono: "r \<subseteq>\<^sub>m r' \<Longrightarrow> rel_node r n n' \<Longrightarrow> rel_node r' n n'"
  by (auto simp: rel_node_def dest: rel_entries_mono rel_ptrs_mono)

lemma rel_grad_mono: "r \<subseteq>\<^sub>m r' \<Longrightarrow> rel_grad r g g' \<Longrightarrow> rel_grad r' g g'"
  by (auto simp: rel_grad_def dest: rel_entries_mono rel_entry_mono)

lemma rel_grads_mono:
  "r \<subseteq>\<^sub>m r' \<Longrightarrow> list_all2 (rel_grad r) gs gs' \<Longrightarrow> list_all2 (rel_grad r') gs gs'"
  by (erule list_all2_mono) (rule rel_grad_mono)

lemma rel_alist_mono:
  "r \<subseteq>\<^sub>m r' \<Longrightarrow> (\<And>x y. V x y \<Longrightarrow> V' x y) \<Longrightarrow> rel_alist r V al al' \<Longrightarrow> rel_alist r' V' al al'"
  unfolding rel_alist_def by (erule list_all2_mono) (auto dest: rel_ptr_mono)

lemma rel_table_mono: "r \<subseteq>\<^sub>m r' \<Longrightarrow> rel_table r og og' \<Longrightarrow> rel_table r' og og'"
  unfolding rel_table_def
  using rel_alist_mono [of r r' "list_all2 (rel_grad r)" "list_all2 (rel_grad r')" og og']
    rel_grads_mono [of r r'] by blast

lemma rel_mirror_mono: "r \<subseteq>\<^sub>m r' \<Longrightarrow> rel_mirror r m m' \<Longrightarrow> rel_mirror r' m m'"
  unfolding rel_mirror_def
  using rel_alist_mono [of r r' "rel_ptr r" "rel_ptr r'" m m'] rel_ptr_mono [of r r'] by blast

lemma rel_alist_map_of:
  "rel_alist r V al al' \<Longrightarrow> inj_ren r \<Longrightarrow> rel_ptr r k k'
     \<Longrightarrow> rel_option V (map_of al k) (map_of al' k')"
  unfolding rel_alist_def
proof (induction al al' rule: list_all2_induct)
  case Nil
  then show ?case by simp
next
  case (Cons x xs y ys)
  from Cons.prems Cons.hyps(1) have "fst x = k \<longleftrightarrow> fst y = k'"
    by (auto dest: rel_ptr_eq)
  with Cons show ?case by (cases x; cases y) auto
qed

lemma rel_alist_update:
  "rel_alist r V al al' \<Longrightarrow> inj_ren r \<Longrightarrow> rel_ptr r k k' \<Longrightarrow> V v v'
     \<Longrightarrow> rel_alist r V (AList.update k v al) (AList.update k' v' al')"
  unfolding rel_alist_def
proof (induction al al' rule: list_all2_induct)
  case Nil
  then show ?case by simp
next
  case (Cons x xs y ys)
  from Cons.prems Cons.hyps(1) have "fst x = k \<longleftrightarrow> fst y = k'"
    by (auto dest: rel_ptr_eq)
  with Cons show ?case by (cases x; cases y) auto
qed

lemma rel_alist_length: "rel_alist r V al al' \<Longrightarrow> length al = length al'"
  unfolding rel_alist_def by (rule list_all2_lengthD)

lemma rel_ptr_mem:
  "list_all2 (rel_ptr r) ps ps' \<Longrightarrow> inj_ren r \<Longrightarrow> rel_ptr r p p' \<Longrightarrow> p \<in> set ps \<longleftrightarrow> p' \<in> set ps'"
proof (induction ps ps' rule: list_all2_induct)
  case Nil
  then show ?case by simp
next
  case (Cons x xs y ys)
  from Cons.prems Cons.hyps(1) have "p = x \<longleftrightarrow> p' = y" by (auto dest: rel_ptr_eq)
  with Cons show ?case by auto
qed

lemma deref_rel:
  "rel_heap r h h' \<Longrightarrow> rel_ptr r p p' \<Longrightarrow> deref h p = Inr n
     \<Longrightarrow> \<exists>n'. deref h' p' = Inr n' \<and> rel_node r n n'"
  by (auto simp: rel_heap_def deref_def rel_ptr_def split: option.splits if_splits)

lemma rel_heap_inj: "rel_heap r h h' \<Longrightarrow> inj_ren r"
  by (simp add: rel_heap_def)

lemma alloc_map_le: "rel_heap r h h' \<Longrightarrow> r \<subseteq>\<^sub>m r(length h \<mapsto> length h')"
  by (auto simp: rel_heap_def map_le_def)

lemma rel_heap_alloc:
  assumes "rel_heap r h h'" and "rel_node (r(length h \<mapsto> length h')) n n'"
  shows "rel_heap (r(length h \<mapsto> length h')) (h @ [n]) (h' @ [n'])"
proof -
  let ?r = "r(length h \<mapsto> length h')"
  from assms(1) have le: "r \<subseteq>\<^sub>m ?r" by (rule alloc_map_le)
  from assms(1) have inj: "inj_ren ?r"
    by (auto simp: rel_heap_def inj_ren_def split: if_splits)
  have "a < length (h @ [n]) \<and> a' < length (h' @ [n']) \<and> rel_node ?r ((h @ [n]) ! a) ((h' @ [n']) ! a')"
    if "?r a = Some a'" for a a'
  proof (cases "a = length h")
    case True
    with that assms(2) show ?thesis by (auto simp: nth_append)
  next
    case False
    with that have ra: "r a = Some a'" by simp
    with assms(1) have "a < length h" "a' < length h'" "rel_node r (h ! a) (h' ! a')"
      by (auto simp: rel_heap_def)
    with rel_node_mono [OF le] show ?thesis by (simp add: nth_append)
  qed
  with inj show ?thesis unfolding rel_heap_def by blast
qed

lemma rel_entries_nodes:
  "list_all2 (rel_entry r) es es' \<Longrightarrow> list_all2 (rel_ptr r) (map node es) (map node es')"
  by (induction es es' rule: list_all2_induct) (auto simp: rel_entry_def)

lemma rel_node_children:
  "rel_node r n n' \<Longrightarrow>
     list_all2 (rel_ptr r) (map node (inputs n) @ control_deps n)
       (map node (inputs n') @ control_deps n')"
  by (auto simp: rel_node_def intro!: list_all2_appendI rel_entries_nodes)

lemma visit_rel:
  "visit k h p s = Inr s1 \<Longrightarrow> rel_heap r h h' \<Longrightarrow> rel_ptr r p p'
     \<Longrightarrow> list_all2 (rel_ptr r) (fst s) (fst s') \<Longrightarrow> list_all2 (rel_ptr r) (snd s) (snd s')
     \<Longrightarrow> \<exists>s1'. visit k h' p' s' = Inr s1' \<and> list_all2 (rel_ptr r) (fst s1) (fst s1')
           \<and> list_all2 (rel_ptr r) (snd s1) (snd s1')"
  "visit_all k h ps s = Inr s1 \<Longrightarrow> rel_heap r h h' \<Longrightarrow> list_all2 (rel_ptr r) ps ps'
     \<Longrightarrow> list_all2 (rel_ptr r) (fst s) (fst s') \<Longrightarrow> list_all2 (rel_ptr r) (snd s) (snd s')
     \<Longrightarrow> \<exists>s1'. visit_all k h' ps' s' = Inr s1' \<and> list_all2 (rel_ptr r) (fst s1) (fst s1')
           \<and> list_all2 (rel_ptr r) (snd s1) (snd s1')"
proof (induction k h p s and k h ps s arbitrary: p' s' s1 and ps' s' s1
    rule: visit_visit_all.induct)
  case (1 h p s)
  then show ?case by simp
next
  case (2 k h p s)
  note inj = rel_heap_inj [OF "2.prems"(2)]
  from rel_ptr_mem [OF "2.prems"(4) inj "2.prems"(3)]
  have mem: "p \<in> set (fst s) \<longleftrightarrow> p' \<in> set (fst s')" .
  show ?case
  proof (cases "p \<in> set (fst s)")
    case True
    with "2.prems" mem show ?thesis by auto
  next
    case False
    with "2.prems"(1) obtain n s0 where n: "deref h p = Inr n"
      and s0: "visit_all k h (map node (inputs n) @ control_deps n) (p # fst s, snd s) = Inr s0"
      and s1: "s1 = (fst s0, snd s0 @ [p])"
      by (auto split: sum.splits)
    from deref_rel [OF "2.prems"(2,3) n] obtain n' where
      n': "deref h' p' = Inr n'" and nn: "rel_node r n n'" by blast
    have "\<exists>s1'. visit_all k h' (map node (inputs n') @ control_deps n') (p' # fst s', snd s') = Inr s1'
        \<and> list_all2 (rel_ptr r) (fst s0) (fst s1') \<and> list_all2 (rel_ptr r) (snd s0) (snd s1')"
      by (rule "2.IH" [OF False n s0 "2.prems"(2) rel_node_children [OF nn]])
         (use "2.prems" in simp_all)
    then obtain s0' where
      "visit_all k h' (map node (inputs n') @ control_deps n') (p' # fst s', snd s') = Inr s0'"
      "list_all2 (rel_ptr r) (fst s0) (fst s0')" "list_all2 (rel_ptr r) (snd s0) (snd s0')"
      by blast
    with False mem n' s1 "2.prems"(3) show ?thesis
      by (auto intro!: list_all2_appendI)
  qed
next
  case (3 k h s)
  then show ?case by auto
next
  case (4 k h p ps s)
  from "4.prems"(1) obtain s2 where s2: "visit k h p s = Inr s2"
    and rest: "visit_all k h ps s2 = Inr s1"
    by (auto split: sum.splits)
  from "4.prems"(3) obtain q qs where ps': "ps' = q # qs" and q: "rel_ptr r p q"
    and qs: "list_all2 (rel_ptr r) ps qs"
    by (auto simp: list_all2_Cons1)
  from "4.IH"(1) [OF s2 "4.prems"(2) q "4.prems"(4,5)] obtain s2' where
    s2': "visit k h' q s' = Inr s2'" "list_all2 (rel_ptr r) (fst s2) (fst s2')"
      "list_all2 (rel_ptr r) (snd s2) (snd s2')" by blast
  from "4.IH"(2) [OF s2 rest "4.prems"(2) qs s2'(2,3)] s2'(1) ps' show ?case by simp
qed

lemma DFSVisit_rel:
  assumes "DFSVisit h ys = Inr topo" and "rel_heap r h h'" and "list_all2 (rel_entry r) ys ys'"
  shows "\<exists>topo'. DFSVisit h' ys' = Inr topo' \<and> list_all2 (rel_ptr r) topo topo'"
proof -
  define K where "K = Suc (length h) + Suc (length h')"
  from assms(1) obtain s where s: "visit_all (Suc (length h)) h (map node ys) ([], []) = Inr s"
    and topo: "topo = snd s" by (auto simp: DFSVisit_def split: sum.splits)
  from visit_all_fuel_add [OF s, of "Suc (length h')"]
  have sK: "visit_all K h (map node ys) ([], []) = Inr s" by (simp add: K_def)
  have "\<exists>s'. visit_all K h' (map node ys') ([], []) = Inr s'
      \<and> list_all2 (rel_ptr r) (fst s) (fst s') \<and> list_all2 (rel_ptr r) (snd s) (snd s')"
    by (rule visit_rel(2) [OF sK assms(2) rel_entries_nodes [OF assms(3)]]) simp_all
  then obtain s' where s': "visit_all K h' (map node ys') ([], []) = Inr s'"
    and rel: "list_all2 (rel_ptr r) (snd s) (snd s')" by blast
  let ?r0 = "visit_all (Suc (length h')) h' (map node ys') ([], [])"
  have "card (unvisited h' (fst ([], []))) \<le> length h'"
    using card_mono [of "{..<length h'}" "unvisited h' []"] by (auto simp: unvisited_def)
  then have "card (unvisited h' (fst ([], []))) < Suc (length h')" by simp
  from visit_fuel_enough(2) [OF this] have "?r0 \<noteq> Inl Fuel_Exhausted" .
  from visit_all_fuel_add [OF refl this, of "Suc (length h)"]
  have "visit_all K h' (map node ys') ([], []) = ?r0" by (simp add: K_def add.commute)
  with s' have "?r0 = Inr s'" by simp
  with rel topo show ?thesis by (simp add: DFSVisit_def)
qed

lemma rel_table_map_of:
  "rel_table r og og' \<Longrightarrow> inj_ren r \<Longrightarrow> rel_ptr r k k'
     \<Longrightarrow> rel_option (list_all2 (rel_grad r)) (map_of og k) (map_of og' k')"
  unfolding rel_table_def by (rule rel_alist_map_of)

lemma rel_table_update:
  "rel_table r og og' \<Longrightarrow> inj_ren r \<Longrightarrow> rel_ptr r k k' \<Longrightarrow> list_all2 (rel_grad r) v v'
     \<Longrightarrow> rel_table r (AList.update k v og) (AList.update k' v' og')"
  unfolding rel_table_def by (rule rel_alist_update)

lemma alloc_slots_rel:
  assumes "alloc_slots E h og p = Inr og1" and "rel_heap r h h'" and "rel_table r og og'"
    and "rel_ptr r p p'" and "shape_fun (num_outputs E)"
  shows "\<exists>og1'. alloc_slots E h' og' p' = Inr og1' \<and> rel_table r og1 og1'"
proof -
  note inj = rel_heap_inj [OF assms(2)]
  from rel_table_map_of [OF assms(3) inj assms(4)]
  have none: "map_of og p = None \<longleftrightarrow> map_of og' p' = None"
    by (auto elim: option.rel_cases)
  show ?thesis
  proof (cases "map_of og p = None")
    case True
    with assms(1) obtain n where n: "deref h p = Inr n"
      and og1: "og1 = AList.update p (replicate (unat (num_outputs E n)) GradEntry_init) og"
      by (auto simp: alloc_slots_def split: sum.splits)
    from deref_rel [OF assms(2,4) n] obtain n' where
      n': "deref h' p' = Inr n'" and nn: "rel_node r n n'" by blast
    from assms(5) nn have eq: "num_outputs E n = num_outputs E n'"
      unfolding shape_fun_def by blast
    have "list_all2 (rel_grad r) (replicate (unat (num_outputs E n)) GradEntry_init)
        (replicate (unat (num_outputs E n')) GradEntry_init)"
      by (simp add: eq list_all2_conv_all_nth rel_grad_def rel_entry_def GradEntry_init_def)
    from rel_table_update [OF assms(3) inj assms(4) this] True none n' og1
    show ?thesis by (simp add: alloc_slots_def)
  next
    case False
    with assms none show ?thesis by (auto simp: alloc_slots_def)
  qed
qed

lemma alloc_all_rel:
  "alloc_all E h og ps = Inr og1 \<Longrightarrow> rel_heap r h h' \<Longrightarrow> rel_table r og og'
     \<Longrightarrow> list_all2 (rel_ptr r) ps ps' \<Longrightarrow> shape_fun (num_outputs E)
     \<Longrightarrow> \<exists>og1'. alloc_all E h' og' ps' = Inr og1' \<and> rel_table r og1 og1'"
proof (induction ps arbitrary: og og' ps')
  case Nil
  then show ?case by auto
next
  case (Cons p ps)
  from Cons.prems(1) obtain og2 where og2: "alloc_slots E h og p = Inr og2"
    and rest: "alloc_all E h og2 ps = Inr og1" by (auto split: sum.splits)
  from Cons.prems(4) obtain q qs where ps': "ps' = q # qs" and q: "rel_ptr r p q"
    and qs: "list_all2 (rel_ptr r) ps qs" by (auto simp: list_all2_Cons1)
  from alloc_slots_rel [OF og2 Cons.prems(2,3) q Cons.prems(5)] obtain og2' where
    og2': "alloc_slots E h' og' q = Inr og2'" "rel_table r og2 og2'" by blast
  from Cons.IH [OF rest Cons.prems(2) og2'(2) qs Cons.prems(5)] og2'(1) ps'
  show ?case by simp
qed

lemma slot_get_rel:
  assumes "slot_get og e = Inr g" and "rel_table r og og'" and "inj_ren r"
    and "rel_entry r e e'"
  shows "\<exists>g'. slot_get og' e' = Inr g' \<and> rel_grad r g g'"
proof -
  from assms(4) have p: "rel_ptr r (node e) (node e')" and i: "index e = index e'"
    by (simp_all add: rel_entry_def)
  from assms(1) obtain v where v: "map_of og (node e) = Some v"
    and lt: "unat (index e) < length v" and g: "g = v ! unat (index e)"
    by (auto simp: slot_get_def split: option.splits if_splits)
  from rel_table_map_of [OF assms(2,3) p] v obtain v' where
    v': "map_of og' (node e') = Some v'" and vv: "list_all2 (rel_grad r) v v'"
    by (auto elim: option.rel_cases)
  from vv lt have "unat (index e) < length v'" "rel_grad r (v ! unat (index e)) (v' ! unat (index e))"
    by (auto simp: list_all2_conv_all_nth)
  with v' i g show ?thesis by (simp add: slot_get_def)
qed

lemma slot_put_rel:
  assumes "slot_get og e = Inr g0" and "rel_table r og og'" and "inj_ren r"
    and "rel_entry r e e'" and "rel_grad r g g'"
  shows "rel_table r (slot_put og e g) (slot_put og' e' g')"
proof -
  from assms(4) have p: "rel_ptr r (node e) (node e')" and i: "index e = index e'"
    by (simp_all add: rel_entry_def)
  from assms(1) obtain v where v: "map_of og (node e) = Some v"
    by (auto simp: slot_get_def split: option.splits if_splits)
  from rel_table_map_of [OF assms(2,3) p] v obtain v' where
    v': "map_of og' (node e') = Some v'" and vv: "list_all2 (rel_grad r) v v'"
    by (auto elim: option.rel_cases)
  from vv assms(5) have "list_all2 (rel_grad r) (v[unat (index e) := g]) (v'[unat (index e) := g'])"
    by (rule list_all2_update_cong)
  from rel_table_update [OF assms(2,3) p this] v v' i show ?thesis
    by (simp add: slot_put_def)
qed

lemma init_seeds_rel:
  "init_seeds og ys gs = Inr og1 \<Longrightarrow> rel_table r og og' \<Longrightarrow> inj_ren r
     \<Longrightarrow> list_all2 (rel_entry r) ys ys' \<Longrightarrow> list_all2 (rel_entry r) gs gs'
     \<Longrightarrow> \<exists>og1'. init_seeds og' ys' gs' = Inr og1' \<and> rel_table r og1 og1'"
proof (induction og ys gs arbitrary: og' ys' gs' rule: init_seeds.induct)
  case (1 og gs)
  then show ?case by auto
next
  case (2 og y ys)
  then show ?case by simp
next
  case (3 og y ys g gs)
  from "3.prems"(1) obtain e0 where e0: "slot_get og y = Inr e0"
    and rest: "init_seeds (slot_put og y (e0\<lparr>grads := [g]\<rparr>)) ys gs = Inr og1"
    by (auto split: sum.splits)
  from "3.prems"(4) obtain y' ys2 where ys': "ys' = y' # ys2" and y: "rel_entry r y y'"
    and ys2: "list_all2 (rel_entry r) ys ys2" by (auto simp: list_all2_Cons1)
  from "3.prems"(5) obtain g' gs2 where gs': "gs' = g' # gs2" and g: "rel_entry r g g'"
    and gs2: "list_all2 (rel_entry r) gs gs2" by (auto simp: list_all2_Cons1)
  from slot_get_rel [OF e0 "3.prems"(2,3) y] obtain e0' where
    e0': "slot_get og' y' = Inr e0'" and ee: "rel_grad r e0 e0'" by blast
  from ee g have "rel_grad r (e0\<lparr>grads := [g]\<rparr>) (e0'\<lparr>grads := [g']\<rparr>)"
    by (simp add: rel_grad_def)
  from slot_put_rel [OF e0 "3.prems"(2,3) y this]
  have "rel_table r (slot_put og y (e0\<lparr>grads := [g]\<rparr>)) (slot_put og' y' (e0'\<lparr>grads := [g']\<rparr>))" .
  from "3.IH" [OF e0 rest this "3.prems"(3) ys2 gs2] e0' ys' gs' show ?case by simp
qed

lemma scatter_rel:
  "scatter og ins gs = Inr og1 \<Longrightarrow> rel_table r og og' \<Longrightarrow> inj_ren r
     \<Longrightarrow> list_all2 (rel_entry r) ins ins' \<Longrightarrow> list_all2 (rel_entry r) gs gs'
     \<Longrightarrow> \<exists>og1'. scatter og' ins' gs' = Inr og1' \<and> rel_table r og1 og1'"
proof (induction og ins gs arbitrary: og' ins' gs' rule: scatter.induct)
  case (1 og gs)
  then show ?case by auto
next
  case (2 og i "is")
  then show ?case by simp
next
  case (3 og i "is" g gs)
  from "3.prems"(1) obtain e0 where e0: "slot_get og i = Inr e0"
    and rest: "scatter (slot_put og i (e0\<lparr>grads := grads e0 @ [g]\<rparr>)) is gs = Inr og1"
    by (auto split: sum.splits)
  from "3.prems"(4) obtain i' is2 where ins': "ins' = i' # is2" and i: "rel_entry r i i'"
    and is2: "list_all2 (rel_entry r) is is2" by (auto simp: list_all2_Cons1)
  from "3.prems"(5) obtain g' gs2 where gs': "gs' = g' # gs2" and g: "rel_entry r g g'"
    and gs2: "list_all2 (rel_entry r) gs gs2" by (auto simp: list_all2_Cons1)
  from slot_get_rel [OF e0 "3.prems"(2,3) i] obtain e0' where
    e0': "slot_get og' i' = Inr e0'" and ee: "rel_grad r e0 e0'" by blast
  from ee g have "rel_grad r (e0\<lparr>grads := grads e0 @ [g]\<rparr>) (e0'\<lparr>grads := grads e0' @ [g']\<rparr>)"
    by (auto simp: rel_grad_def intro!: list_all2_appendI)
  from slot_put_rel [OF e0 "3.prems"(2,3) i this]
  have "rel_table r (slot_put og i (e0\<lparr>grads := grads e0 @ [g]\<rparr>))
      (slot_put og' i' (e0'\<lparr>grads := grads e0' @ [g']\<rparr>))" .
  from "3.IH" [OF e0 rest this "3.prems"(3) is2 gs2] e0' ins' gs' show ?case by simp
qed

lemma mirror_at_rel:
  assumes "mirror_at m p = Inr q" and "rel_mirror r m m'" and "inj_ren r" and "rel_ptr r p p'"
  shows "\<exists>q'. mirror_at m' p' = Inr q' \<and> rel_ptr r q q'"
proof -
  from assms(1) have "map_of m p = Some q" by (auto simp: mirror_at_def split: option.splits)
  with rel_alist_map_of [OF assms(2) [unfolded rel_mirror_def] assms(3,4)]
  show ?thesis by (auto simp: mirror_at_def elim: option.rel_cases)
qed

lemma mirror_entries_rel:
  "mirror_entries m es = Inr es1 \<Longrightarrow> rel_mirror r m m' \<Longrightarrow> inj_ren r
     \<Longrightarrow> list_all2 (rel_entry r) es es'
     \<Longrightarrow> \<exists>es1'. mirror_entries m' es' = Inr es1' \<and> list_all2 (rel_entry r) es1 es1'"
proof (induction es arbitrary: es1 es')
  case Nil
  then show ?case by auto
next
  case (Cons e es)
  from Cons.prems(1) obtain q es2 where q: "mirror_at m (node e) = Inr q"
    and es2: "mirror_entries m es = Inr es2" and es1: "es1 = e\<lparr>node := q\<rparr> # es2"
    by (auto split: sum.splits)
  from Cons.prems(4) obtain e' es3 where es': "es' = e' # es3" and e: "rel_entry r e e'"
    and es3: "list_all2 (rel_entry r) es es3" by (auto simp: list_all2_Cons1)
  from e have "rel_ptr r (node e) (node e')" by (simp add: rel_entry_def)
  from mirror_at_rel [OF q Cons.prems(2,3) this] obtain q' where
    q': "mirror_at m' (node e') = Inr q'" "rel_ptr r q q'" by blast
  from Cons.IH [OF es2 Cons.prems(2,3) es3] obtain es2' where
    "mirror_entries m' es3 = Inr es2'" "list_all2 (rel_entry r) es2 es2'" by blast
  moreover from e q'(2) have "rel_entry r (e\<lparr>node := q\<rparr>) (e'\<lparr>node := q'\<rparr>)"
    by (simp add: rel_entry_def)
  ultimately show ?case using q'(1) es1 es' by simp
qed

lemma mirror_deps_rel:
  "mirror_deps m ps = Inr ps1 \<Longrightarrow> rel_mirror r m m' \<Longrightarrow> inj_ren r
     \<Longrightarrow> list_all2 (rel_ptr r) ps ps'
     \<Longrightarrow> \<exists>ps1'. mirror_deps m' ps' = Inr ps1' \<and> list_all2 (rel_ptr r) ps1 ps1'"
proof (induction ps arbitrary: ps1 ps')
  case Nil
  then show ?case by auto
next
  case (Cons p ps)
  from Cons.prems(1) obtain q ps2 where q: "mirror_at m p = Inr q"
    and ps2: "mirror_deps m ps = Inr ps2" and ps1: "ps1 = q # ps2"
    by (auto split: sum.splits)
  from Cons.prems(4) obtain p' ps3 where ps': "ps' = p' # ps3" and p: "rel_ptr r p p'"
    and ps3: "list_all2 (rel_ptr r) ps ps3" by (auto simp: list_all2_Cons1)
  from mirror_at_rel [OF q Cons.prems(2,3) p] obtain q' where
    q': "mirror_at m' p' = Inr q'" "rel_ptr r q q'" by blast
  from Cons.IH [OF ps2 Cons.prems(2,3) ps3] obtain ps2' where
    "mirror_deps m' ps3 = Inr ps2'" "list_all2 (rel_ptr r) ps2 ps2'" by blast
  with q' ps1 ps' show ?case by simp
qed

lemma mirror_step_rel:
  assumes "mirror_step mf (h, m) p = Inr (h1, m1)" and "rel_heap r h h'"
    and "rel_mirror r m m'" and "rel_ptr r p p'" and "shape_fun mf"
  shows "\<exists>r' h1' m1'. r \<subseteq>\<^sub>m r' \<and> mirror_step mf (h', m') p' = Inr (h1', m1')
           \<and> rel_heap r' h1 h1' \<and> rel_mirror r' m1 m1'"
proof -
  note inj = rel_heap_inj [OF assms(2)]
  from assms(1) obtain n where n: "deref h p = Inr n"
    by (auto simp: mirror_step_def split: sum.splits)
  from deref_rel [OF assms(2,4) n] obtain n' where
    n': "deref h' p' = Inr n'" and nn: "rel_node r n n'" by blast
  from assms(5) nn have mf: "mf n = mf n'" unfolding shape_fun_def by blast
  show ?thesis
  proof (cases "mf n = 0")
    case True
    with assms(1) n have "h1 = h" "m1 = AList.update p p m"
      by (auto simp: mirror_step_def)
    moreover from rel_alist_update [OF assms(3) [unfolded rel_mirror_def] inj assms(4) assms(4)]
    have "rel_mirror r (AList.update p p m) (AList.update p' p' m')"
      by (simp add: rel_mirror_def)
    ultimately show ?thesis using True mf n' assms(2)
      by (auto simp: mirror_step_def intro!: exI [of _ r])
  next
    case False
    let ?r = "r(length h \<mapsto> length h')"
    from assms(1) n False obtain ins deps where
      ins: "mirror_entries m (inputs n) = Inr ins"
      and deps: "mirror_deps m (control_deps n) = Inr deps"
      and h1: "h1 = h @ [n\<lparr>name := name n @ ''_mirror'', inputs := ins, control_deps := deps\<rparr>]"
      and m1: "m1 = AList.update p (Some (length h)) m"
      by (auto simp: mirror_step_def Node_Create_def split: sum.splits)
    from nn have ni: "list_all2 (rel_entry r) (inputs n) (inputs n')"
      and nd: "list_all2 (rel_ptr r) (control_deps n) (control_deps n')"
      and no: "op n = op n'" "name n = name n'"
      by (simp_all add: rel_node_def)
    from mirror_entries_rel [OF ins assms(3) inj ni] obtain ins' where
      ins': "mirror_entries m' (inputs n') = Inr ins'" "list_all2 (rel_entry r) ins ins'" by blast
    from mirror_deps_rel [OF deps assms(3) inj nd] obtain deps' where
      deps': "mirror_deps m' (control_deps n') = Inr deps'" "list_all2 (rel_ptr r) deps deps'"
      by blast
    note le = alloc_map_le [OF assms(2)]
    have "rel_node ?r (n\<lparr>name := name n @ ''_mirror'', inputs := ins, control_deps := deps\<rparr>)
        (n'\<lparr>name := name n' @ ''_mirror'', inputs := ins', control_deps := deps'\<rparr>)"
      using no rel_entries_mono [OF le ins'(2)] rel_ptrs_mono [OF le deps'(2)]
      by (simp add: rel_node_def)
    from rel_heap_alloc [OF assms(2) this]
    have rh: "rel_heap ?r h1
        (h' @ [n'\<lparr>name := name n' @ ''_mirror'', inputs := ins', control_deps := deps'\<rparr>])"
      by (simp add: h1)
    have new: "rel_ptr ?r (Some (length h)) (Some (length h'))" by (simp add: rel_ptr_def)
    have "rel_alist ?r (rel_ptr ?r) (AList.update p (Some (length h)) m)
        (AList.update p' (Some (length h')) m')"
      by (rule rel_alist_update [OF rel_mirror_mono [OF le assms(3), unfolded rel_mirror_def]
            rel_heap_inj [OF rh] rel_ptr_mono [OF le assms(4)] new])
    then have "rel_mirror ?r m1 (AList.update p' (Some (length h')) m')"
      unfolding rel_mirror_def m1 .
    with rh le False mf n' ins' deps' show ?thesis
      by (auto simp: mirror_step_def Node_Create_def intro!: exI [of _ ?r])
  qed
qed

lemma mirror_all_rel:
  "mirror_all mf (h, m) ps = Inr (h1, m1) \<Longrightarrow> rel_heap r h h' \<Longrightarrow> rel_mirror r m m'
     \<Longrightarrow> list_all2 (rel_ptr r) ps ps' \<Longrightarrow> shape_fun mf
     \<Longrightarrow> \<exists>r' h1' m1'. r \<subseteq>\<^sub>m r' \<and> mirror_all mf (h', m') ps' = Inr (h1', m1')
           \<and> rel_heap r' h1 h1' \<and> rel_mirror r' m1 m1'"
proof (induction ps arbitrary: h m h' m' r ps')
  case Nil
  then show ?case by (auto intro!: exI [of _ r])
next
  case (Cons p ps)
  from Cons.prems(1) obtain h2 m2 where s2: "mirror_step mf (h, m) p = Inr (h2, m2)"
    and rest: "mirror_all mf (h2, m2) ps = Inr (h1, m1)"
    by (auto split: sum.splits)
  from Cons.prems(4) obtain q qs where ps': "ps' = q # qs" and q: "rel_ptr r p q"
    and qs: "list_all2 (rel_ptr r) ps qs" by (auto simp: list_all2_Cons1)
  from mirror_step_rel [OF s2 Cons.prems(2,3) q Cons.prems(5)] obtain r2 h2' m2' where
    r2: "r \<subseteq>\<^sub>m r2" and s2': "mirror_step mf (h', m') q = Inr (h2', m2')"
    and rh: "rel_heap r2 h2 h2'" and rm: "rel_mirror r2 m2 m2'" by blast
  from Cons.IH [OF rest rh rm rel_ptrs_mono [OF r2 qs] Cons.prems(5)] obtain r3 h1' m1' where
    "r2 \<subseteq>\<^sub>m r3" "mirror_all mf (h2', m2') qs = Inr (h1', m1')"
    "rel_heap r3 h1 h1'" "rel_mirror r3 m1 m1'" by blast
  with r2 s2' ps' show ?case
    by (auto intro!: exI [of _ r3] intro: map_le_trans)
qed

lemma agg_slots_rel:
  "agg_slots af es h = Inr (es1, outs, h1) \<Longrightarrow> equivariant_agg af \<Longrightarrow> rel_heap r h h'
     \<Longrightarrow> list_all2 (rel_grad r) es es'
     \<Longrightarrow> \<exists>r' es1' outs' h1'. r \<subseteq>\<^sub>m r' \<and> agg_slots af es' h' = Inr (es1', outs', h1')
           \<and> rel_heap r' h1 h1' \<and> list_all2 (rel_grad r') es1 es1'
           \<and> list_all2 (rel_entry r') outs outs'"
proof (induction es arbitrary: h h' r es' es1 outs)
  case Nil
  then show ?case by (auto intro!: exI [of _ r])
next
  case (Cons e es)
  from Cons.prems(1) obtain s rest h2 es2 outs2 where
    a: "af (grads e) h = Inr (s, rest, h2)"
    and b: "agg_slots af es h2 = Inr (es2, outs2, h1)"
    and es1: "es1 = \<lparr>sum_entry = s, grads = rest\<rparr> # es2" and outs: "outs = s # outs2"
    by (auto split: sum.splits)
  from Cons.prems(4) obtain e' es3 where es': "es' = e' # es3" and e: "rel_grad r e e'"
    and es3: "list_all2 (rel_grad r) es es3" by (auto simp: list_all2_Cons1)
  from e have "list_all2 (rel_entry r) (grads e) (grads e')" by (simp add: rel_grad_def)
  with Cons.prems(2,3) a obtain r2 s' rest' h2' where
    r2: "r \<subseteq>\<^sub>m r2" and a': "af (grads e') h' = Inr (s', rest', h2')"
    and rh: "rel_heap r2 h2 h2'" and ss: "rel_entry r2 s s'"
    and rr: "list_all2 (rel_entry r2) rest rest'"
    unfolding equivariant_agg_def by blast
  from Cons.IH [OF b Cons.prems(2) rh rel_grads_mono [OF r2 es3]] obtain r3 es2' outs2' h1' where
    r3: "r2 \<subseteq>\<^sub>m r3" and b': "agg_slots af es3 h2' = Inr (es2', outs2', h1')"
    and rh3: "rel_heap r3 h1 h1'" and ee: "list_all2 (rel_grad r3) es2 es2'"
    and oo: "list_all2 (rel_entry r3) outs2 outs2'" by blast
  from ss rr r3 have "rel_grad r3 \<lparr>sum_entry = s, grads = rest\<rparr> \<lparr>sum_entry = s', grads = rest'\<rparr>"
    by (auto simp: rel_grad_def dest: rel_entry_mono rel_entries_mono)
  with r2 r3 a' b' rh3 ee oo es1 outs es' ss show ?case
    by (auto intro!: exI [of _ r3] intro: map_le_trans dest: rel_entry_mono)
qed

lemma call_grad_fun_rel:
  assumes "call_grad_fun E m ptr ogs h = Inr (gs, h1)" and "equivariant_env E"
    and "rel_heap r h h'" and "rel_mirror r m m'" and "rel_ptr r ptr ptr'"
    and "list_all2 (rel_entry r) ogs ogs'"
  shows "\<exists>r' gs' h1'. r \<subseteq>\<^sub>m r' \<and> call_grad_fun E m' ptr' ogs' h' = Inr (gs', h1')
           \<and> rel_heap r' h1 h1' \<and> list_all2 (rel_entry r') gs gs'"
proof -
  note inj = rel_heap_inj [OF assms(3)]
  from assms(1) obtain n opname gf arg where n: "deref h ptr = Inr n"
    and opn: "op n = Some opname" and gf: "FGradient_map E opname = Some gf"
    and arg: "(if length m = 0 then Inr ptr else mirror_at m ptr) = Inr arg"
    and run: "gf arg ogs h = Inr (gs, h1)"
    by (auto simp: call_grad_fun_def split: sum.splits option.splits)
  from deref_rel [OF assms(3,5) n] obtain n' where
    n': "deref h' ptr' = Inr n'" and nn: "rel_node r n n'" by blast
  from nn opn have opn': "op n' = Some opname" by (simp add: rel_node_def)
  from assms(4) have len: "length m = length m'"
    unfolding rel_mirror_def by (rule rel_alist_length)
  have "\<exists>arg'. (if length m' = 0 then Inr ptr' else mirror_at m' ptr') = Inr arg'
      \<and> rel_ptr r arg arg'"
  proof (cases "length m = 0")
    case True
    with arg len assms(5) show ?thesis by auto
  next
    case False
    with arg have "mirror_at m ptr = Inr arg" by simp
    from mirror_at_rel [OF this assms(4) inj assms(5)] False len show ?thesis by auto
  qed
  then obtain arg' where
    arg': "(if length m' = 0 then Inr ptr' else mirror_at m' ptr') = Inr arg'"
    and aa: "rel_ptr r arg arg'" by blast
  from assms(2) gf have "equivariant_grad gf" unfolding equivariant_env_def by blast
  with assms(3) aa assms(6) run obtain r' gs' h1' where
    "r \<subseteq>\<^sub>m r'" "gf arg' ogs' h' = Inr (gs', h1')" "rel_heap r' h1 h1'"
    "list_all2 (rel_entry r') gs gs'"
    unfolding equivariant_grad_def by blast
  with n' opn' gf arg' show ?thesis
    by (auto simp: call_grad_fun_def intro!: exI [of _ r'])
qed

lemma default_agg_equivariant: "equivariant_agg (DefaultAggregateGradient E)"
  unfolding equivariant_agg_def
proof (intro allI impI, elim conjE)
  fix r h h' v v' s rest h1
  assume rh: "rel_heap r h h'" and vv: "list_all2 (rel_entry r) v v'"
    and run: "DefaultAggregateGradient E v h = Inr (s, rest, h1)"
  from vv have len: "length v = length v'" by (rule list_all2_lengthD)
  let ?r = "r(length h \<mapsto> length h')"
  note le = alloc_map_le [OF rh]
  have new: "rel_entry ?r \<lparr>node = Some (length h), index = 0, version = 0\<rparr>
      \<lparr>node = Some (length h'), index = 0, version = 0\<rparr>"
    by (simp add: rel_entry_def rel_ptr_def)
  consider (one) "length v = 1" | (zero) "length v = 0" | (many) "length v \<noteq> 1" "length v \<noteq> 0"
    by blast
  then show "\<exists>r' s' rest' h1'. r \<subseteq>\<^sub>m r' \<and> DefaultAggregateGradient E v' h' = Inr (s', rest', h1')
      \<and> rel_heap r' h1 h1' \<and> rel_entry r' s s' \<and> list_all2 (rel_entry r') rest rest'"
  proof cases
    case one
    then have "0 < length v" by simp
    from list_all2_nthD [OF vv this] have "rel_entry r (v ! 0) (v' ! 0)" .
    moreover then have "rel_entry r (moved_from (v ! 0)) (moved_from (v' ! 0))"
      by (simp add: rel_entry_def moved_from_def)
    ultimately show ?thesis using one len run rh
      by (auto simp: DefaultAggregateGradient_def intro!: exI [of _ r])
  next
    case zero
    with run have reg: "registered E ''__zero__''" and s: "s = \<lparr>node = Some (length h), index = 0, version = 0\<rparr>"
      and rest: "rest = []"
      and h1: "h1 = h @ [\<lparr>op = Some ''__zero__'', name = [], inputs = [], control_deps = []\<rparr>]"
      by (auto simp: DefaultAggregateGradient_def Node_Create_def Op_Get_def split: if_splits)
    have "rel_node ?r \<lparr>op = Some ''__zero__'', name = [], inputs = [], control_deps = []\<rparr>
        \<lparr>op = Some ''__zero__'', name = [], inputs = [], control_deps = []\<rparr>"
      by (simp add: rel_node_def)
    from rel_heap_alloc [OF rh this] zero len reg s rest h1 le new show ?thesis
      by (auto simp: DefaultAggregateGradient_def Node_Create_def Op_Get_def
          intro!: exI [of _ ?r])
  next
    case many
    with run have reg: "registered E ''__ewise_sum__''"
      and s: "s = \<lparr>node = Some (length h), index = 0, version = 0\<rparr>" and rest: "rest = []"
      and h1: "h1 = h @ [\<lparr>op = Some ''__ewise_sum__'', name = [], inputs = v, control_deps = []\<rparr>]"
      by (auto simp: DefaultAggregateGradient_def Node_Create_def Op_Get_def split: if_splits)
    have "rel_node ?r \<lparr>op = Some ''__ewise_sum__'', name = [], inputs = v, control_deps = []\<rparr>
        \<lparr>op = Some ''__ewise_sum__'', name = [], inputs = v', control_deps = []\<rparr>"
      using rel_entries_mono [OF le vv] by (simp add: rel_node_def)
    from rel_heap_alloc [OF rh this] many len reg s rest h1 le new show ?thesis
      by (auto simp: DefaultAggregateGradient_def Node_Create_def Op_Get_def
          intro!: exI [of _ ?r])
  qed
qed

lemma backward_step_rel:
  assumes "backward_step E af m (og, h) ptr = Inr (og1, h1)"
    and "equivariant_env E" and "equivariant_agg af"
    and "rel_heap r h h'" and "rel_table r og og'" and "rel_mirror r m m'"
    and "rel_ptr r ptr ptr'"
  shows "\<exists>r' og1' h1'. r \<subseteq>\<^sub>m r' \<and> backward_step E af m' (og', h') ptr' = Inr (og1', h1')
           \<and> rel_heap r' h1 h1' \<and> rel_table r' og1 og1'"
proof -
  note inj = rel_heap_inj [OF assms(4)]
  from assms(1) obtain n where n: "deref h ptr = Inr n"
    by (auto simp: backward_step_def split: sum.splits)
  from deref_rel [OF assms(4,7) n] obtain n' where
    n': "deref h' ptr' = Inr n'" and nn: "rel_node r n n'" by blast
  from nn have var: "is_variable n \<longleftrightarrow> is_variable n'" by (simp add: is_variable_def rel_node_def)
  show ?thesis
  proof (cases "is_variable n")
    case True
    with assms(1) n have "og1 = og" "h1 = h" by (auto simp: backward_step_def)
    with True var n' assms(4,5) show ?thesis
      by (auto simp: backward_step_def intro!: exI [of _ r])
  next
    case False
    with assms(1) n obtain slots slots1 outs h2 gs h3 n3 where
      slots: "map_of og ptr = Some slots"
      and agg: "agg_slots af slots h = Inr (slots1, outs, h2)"
      and call: "call_grad_fun E m ptr outs h2 = Inr (gs, h3)"
      and n3: "deref h3 ptr = Inr n3"
      and sc: "scatter (AList.update ptr slots1 og) (inputs n3) gs = Inr og1"
      and h1: "h1 = h3"
      by (auto simp: backward_step_def split: sum.splits option.splits)
    from rel_table_map_of [OF assms(5) inj assms(7)] slots obtain slots' where
      slots': "map_of og' ptr' = Some slots'" and ss: "list_all2 (rel_grad r) slots slots'"
      by (auto elim: option.rel_cases)
    from agg_slots_rel [OF agg assms(3,4) ss] obtain r2 slots1' outs' h2' where
      r2: "r \<subseteq>\<^sub>m r2" and agg': "agg_slots af slots' h' = Inr (slots1', outs', h2')"
      and rh2: "rel_heap r2 h2 h2'" and s1: "list_all2 (rel_grad r2) slots1 slots1'"
      and oo: "list_all2 (rel_entry r2) outs outs'" by blast
    from call_grad_fun_rel [OF call assms(2) rh2 rel_mirror_mono [OF r2 assms(6)]
        rel_ptr_mono [OF r2 assms(7)] oo]
    obtain r3 gs' h3' where r3: "r2 \<subseteq>\<^sub>m r3"
      and call': "call_grad_fun E m' ptr' outs' h2' = Inr (gs', h3')"
      and rh3: "rel_heap r3 h3 h3'" and gg: "list_all2 (rel_entry r3) gs gs'" by blast
    from r2 r3 have r13: "r \<subseteq>\<^sub>m r3" by (rule map_le_trans)
    note p3 = rel_ptr_mono [OF r13 assms(7)]
    from deref_rel [OF rh3 p3 n3] obtain n3' where
      n3': "deref h3' ptr' = Inr n3'" and nn3: "rel_node r3 n3 n3'" by blast
    from nn3 have ins: "list_all2 (rel_entry r3) (inputs n3) (inputs n3')"
      by (simp add: rel_node_def)
    from rel_table_update [OF rel_table_mono [OF r13 assms(5)] rel_heap_inj [OF rh3] p3
        rel_grads_mono [OF r3 s1]]
    have "rel_table r3 (AList.update ptr slots1 og) (AList.update ptr' slots1' og')" .
    from scatter_rel [OF sc this rel_heap_inj [OF rh3] ins gg] obtain og1' where
      "scatter (AList.update ptr' slots1' og') (inputs n3') gs' = Inr og1'"
      "rel_table r3 og1 og1'" by blast
    with False var n' slots' agg' call' n3' rh3 r13 h1 show ?thesis
      by (auto simp: backward_step_def intro!: exI [of _ r3])
  qed
qed

lemma backward_rel:
  "backward E af m (og, h) ps = Inr (og1, h1) \<Longrightarrow> equivariant_env E \<Longrightarrow> equivariant_agg af
     \<Longrightarrow> rel_heap r h h' \<Longrightarrow> rel_table r og og' \<Longrightarrow> rel_mirror r m m'
     \<Longrightarrow> list_all2 (rel_ptr r) ps ps'
     \<Longrightarrow> \<exists>r' og1' h1'. r \<subseteq>\<^sub>m r' \<and> backward E af m' (og', h') ps' = Inr (og1', h1')
           \<and> rel_heap r' h1 h1' \<and> rel_table r' og1 og1'"
proof (induction ps arbitrary: og h og' h' r ps')
  case Nil
  then show ?case by (auto intro!: exI [of _ r])
next
  case (Cons p ps)
  from Cons.prems(1) obtain og2 h2 where
    s2: "backward_step E af m (og, h) p = Inr (og2, h2)"
    and rest: "backward E af m (og2, h2) ps = Inr (og1, h1)"
    by (auto split: sum.splits)
  from Cons.prems(7) obtain q qs where ps': "ps' = q # qs" and q: "rel_ptr r p q"
    and qs: "list_all2 (rel_ptr r) ps qs" by (auto simp: list_all2_Cons1)
  from backward_step_rel [OF s2 Cons.prems(2,3,4,5,6) q] obtain r2 og2' h2' where
    r2: "r \<subseteq>\<^sub>m r2" and s2': "backward_step E af m' (og', h') q = Inr (og2', h2')"
    and rh: "rel_heap r2 h2 h2'" and rt: "rel_table r2 og2 og2'" by blast
  from Cons.IH [OF rest Cons.prems(2,3) rh rt rel_mirror_mono [OF r2 Cons.prems(6)]
      rel_ptrs_mono [OF r2 qs]]
  obtain r3 og1' h1' where "r2 \<subseteq>\<^sub>m r3" "backward E af m' (og2', h2') qs = Inr (og1', h1')"
    "rel_heap r3 h1 h1'" "rel_table r3 og1 og1'" by blast
  with r2 s2' ps' show ?case
    by (auto intro!: exI [of _ r3] intro: map_le_trans)
qed

lemma aggregate_if_needed_rel:
  assumes "aggregate_if_needed af entry h = Inr (entry1, h1)" and "equivariant_agg af"
    and "rel_heap r h h'" and "rel_grad r entry entry'"
  shows "\<exists>r' entry1' h1'. r \<subseteq>\<^sub>m r'
           \<and> aggregate_if_needed af entry' h' = Inr (entry1', h1')
           \<and> rel_heap r' h1 h1' \<and> rel_grad r' entry1 entry1'"
proof -
  from assms(4) have null: "node (sum_entry entry) = None \<longleftrightarrow> node (sum_entry entry') = None"
    by (auto simp: rel_grad_def rel_entry_def)
  show ?thesis
  proof (cases "node (sum_entry entry) = None")
    case True
    with assms(1) obtain s rest where a: "af (grads entry) h = Inr (s, rest, h1)"
      and e1: "entry1 = \<lparr>sum_entry = s, grads = rest\<rparr>"
      by (auto simp: aggregate_if_needed_def split: sum.splits)
    from assms(4) have "list_all2 (rel_entry r) (grads entry) (grads entry')"
      by (simp add: rel_grad_def)
    with assms(2,3) a obtain r' s' rest' h1' where
      "r \<subseteq>\<^sub>m r'" "af (grads entry') h' = Inr (s', rest', h1')" "rel_heap r' h1 h1'"
      "rel_entry r' s s'" "list_all2 (rel_entry r') rest rest'"
      unfolding equivariant_agg_def by blast
    with True null e1 show ?thesis
      by (auto simp: rel_grad_def aggregate_if_needed_def intro!: exI [of _ r'])
  next
    case False
    with assms(1) have "entry1 = entry" "h1 = h" by (auto simp: aggregate_if_needed_def)
    with False null assms(3,4) show ?thesis
      by (auto simp: aggregate_if_needed_def intro!: exI [of _ r])
  qed
qed

lemma take_grad_rel:
  assumes "take_grad af (og, h, outs) e = Inr (og1, h1, outs1)" and "equivariant_agg af"
    and "rel_heap r h h'" and "rel_table r og og'" and "list_all2 (rel_entry r) outs outs'"
    and "rel_entry r e e'"
  shows "\<exists>r' og1' h1' outs1'. r \<subseteq>\<^sub>m r'
           \<and> take_grad af (og', h', outs') e' = Inr (og1', h1', outs1')
           \<and> rel_heap r' h1 h1' \<and> rel_table r' og1 og1'
           \<and> list_all2 (rel_entry r') outs1 outs1'"
proof -
  note inj = rel_heap_inj [OF assms(3)]
  from assms(1) obtain entry entry1 where entry: "slot_get og e = Inr entry"
    and step: "aggregate_if_needed af entry h = Inr (entry1, h1)"
    and og1: "og1 = slot_put og e (entry1\<lparr>sum_entry := moved_from (sum_entry entry1)\<rparr>)"
    and outs1: "outs1 = outs @ [sum_entry entry1]"
    by (auto simp: take_grad_def split: sum.splits)
  from slot_get_rel [OF entry assms(4) inj assms(6)] obtain entry' where
    entry': "slot_get og' e' = Inr entry'" and ee: "rel_grad r entry entry'" by blast
  from aggregate_if_needed_rel [OF step assms(2,3) ee]
  obtain r' entry1' h1' where r': "r \<subseteq>\<^sub>m r'"
    and step': "aggregate_if_needed af entry' h' = Inr (entry1', h1')"
    and rh: "rel_heap r' h1 h1'" and e1: "rel_grad r' entry1 entry1'" by blast
  from e1 have moved: "rel_grad r' (entry1\<lparr>sum_entry := moved_from (sum_entry entry1)\<rparr>)
      (entry1'\<lparr>sum_entry := moved_from (sum_entry entry1')\<rparr>)"
    by (simp add: rel_grad_def rel_entry_def moved_from_def)
  from slot_put_rel [OF entry rel_table_mono [OF r' assms(4)] rel_heap_inj [OF rh]
      rel_entry_mono [OF r' assms(6)] moved]
  have t: "rel_table r' og1
      (slot_put og' e' (entry1'\<lparr>sum_entry := moved_from (sum_entry entry1')\<rparr>))"
    by (simp add: og1)
  from e1 have "rel_entry r' (sum_entry entry1) (sum_entry entry1')" by (simp add: rel_grad_def)
  with rel_entries_mono [OF r' assms(5)]
  have "list_all2 (rel_entry r') outs1 (outs' @ [sum_entry entry1'])"
    by (auto simp: outs1 intro!: list_all2_appendI)
  with r' entry' step' rh t show ?thesis
    by (auto simp: take_grad_def intro!: exI [of _ r'])
qed

lemma take_grads_rel:
  "take_grads af (og, h, outs) es = Inr (og1, h1, outs1) \<Longrightarrow> equivariant_agg af
     \<Longrightarrow> rel_heap r h h' \<Longrightarrow> rel_table r og og' \<Longrightarrow> list_all2 (rel_entry r) outs outs'
     \<Longrightarrow> list_all2 (rel_entry r) es es'
     \<Longrightarrow> \<exists>r' og1' h1' outs1'. r \<subseteq>\<^sub>m r'
           \<and> take_grads af (og', h', outs') es' = Inr (og1', h1', outs1')
           \<and> rel_heap r' h1 h1' \<and> rel_table r' og1 og1'
           \<and> list_all2 (rel_entry r') outs1 outs1'"
proof (induction es arbitrary: og h outs og' h' outs' r es')
  case Nil
  then show ?case by (auto intro!: exI [of _ r])
next
  case (Cons e es)
  from Cons.prems(1) obtain og2 h2 outs2 where
    s2: "take_grad af (og, h, outs) e = Inr (og2, h2, outs2)"
    and rest: "take_grads af (og2, h2, outs2) es = Inr (og1, h1, outs1)"
    by (auto split: sum.splits)
  from Cons.prems(6) obtain e' es2 where es': "es' = e' # es2" and e: "rel_entry r e e'"
    and es2: "list_all2 (rel_entry r) es es2" by (auto simp: list_all2_Cons1)
  from take_grad_rel [OF s2 Cons.prems(2,3,4,5) e] obtain r2 og2' h2' outs2' where
    r2: "r \<subseteq>\<^sub>m r2" and s2': "take_grad af (og', h', outs') e' = Inr (og2', h2', outs2')"
    and rh: "rel_heap r2 h2 h2'" and rt: "rel_table r2 og2 og2'"
    and ro: "list_all2 (rel_entry r2) outs2 outs2'" by blast
  from Cons.IH [OF rest Cons.prems(2) rh rt ro rel_entries_mono [OF r2 es2]]
  obtain r3 og1' h1' outs1' where "r2 \<subseteq>\<^sub>m r3"
    "take_grads af (og2', h2', outs2') es2 = Inr (og1', h1', outs1')"
    "rel_heap r3 h1 h1'" "rel_table r3 og1 og1'" "list_all2 (rel_entry r3) outs1 outs1'"
    by blast
  with r2 s2' es' show ?case
    by (auto intro!: exI [of _ r3] intro: map_le_trans)
qed

lemma Gradient_run_rel:
  assumes "Gradient_run E src h = Inr st" and "equivariant_env E" and "equivariant_request src"
    and "rel_heap r h h'" and "rel_request r src src'"
  shows "\<exists>r' st'. r \<subseteq>\<^sub>m r' \<and> Gradient_run E src' h' = Inr st'
           \<and> rel_heap r' (store st) (store st')
           \<and> list_all2 (rel_entry r') (ret_outputs st) (ret_outputs st')"
proof -
  define af where "af = (case grad_aggregate_fun (attrs src) of
      None \<Rightarrow> DefaultAggregateGradient E | Some f \<Rightarrow> f)"
  from assms(1) obtain ys ys_out_grad xs topo og0 og1 h1 mm og2 h2 og3 h3 outs where
    ys: "grad_ys (attrs src) = Some ys" and gs: "grad_ys_out_grad (attrs src) = Some ys_out_grad"
    and xs: "grad_xs (attrs src) = Some xs"
    and dfs: "DFSVisit h ys = Inr topo" and al: "alloc_all E h [] topo = Inr og0"
    and len: "length ys = length ys_out_grad"
    and ini: "init_seeds og0 ys ys_out_grad = Inr og1"
    and mir: "(case grad_mirror_fun (attrs src) of None \<Rightarrow> Inr (h, [])
            | Some mirror_fun \<Rightarrow> mirror_all mirror_fun (h, []) topo) = Inr (h1, mm)"
    and bw: "backward E af mm (og1, h1) (rev topo) = Inr (og2, h2)"
    and tk: "take_grads af (og2, h2, []) xs = Inr (og3, h3, outs)"
    and st: "st = \<lparr>output_grads = og3, mirror_map = mm, ret_outputs = outs, store = h3\<rparr>"
    unfolding af_def
    by (auto simp: Gradient_run_def Let_def split: option.splits sum.splits if_splits prod.splits)
  from assms(5) ys gs xs obtain ys' ys_out_grad' xs' where
    ys': "grad_ys (attrs src') = Some ys'" "list_all2 (rel_entry r) ys ys'"
    and gs': "grad_ys_out_grad (attrs src') = Some ys_out_grad'"
      "list_all2 (rel_entry r) ys_out_grad ys_out_grad'"
    and xs': "grad_xs (attrs src') = Some xs'" "list_all2 (rel_entry r) xs xs'"
    and same: "grad_aggregate_fun (attrs src') = grad_aggregate_fun (attrs src)"
      "grad_mirror_fun (attrs src') = grad_mirror_fun (attrs src)"
    unfolding rel_request_def by (auto elim!: option.rel_cases)
  from assms(3) have eq_af: "equivariant_agg af"
    unfolding af_def equivariant_request_def
    by (auto simp: default_agg_equivariant split: option.splits)
  from assms(2) have sh: "shape_fun (num_outputs E)" by (simp add: equivariant_env_def)
  note inj = rel_heap_inj [OF assms(4)]
  from DFSVisit_rel [OF dfs assms(4) ys'(2)] obtain topo' where
    dfs': "DFSVisit h' ys' = Inr topo'" and tt: "list_all2 (rel_ptr r) topo topo'" by blast
  have "rel_table r [] []" by (simp add: rel_table_def rel_alist_def)
  from alloc_all_rel [OF al assms(4) this tt sh] obtain og0' where
    al': "alloc_all E h' [] topo' = Inr og0'" and t0: "rel_table r og0 og0'" by blast
  from len list_all2_lengthD [OF ys'(2)] list_all2_lengthD [OF gs'(2)]
  have len': "length ys' = length ys_out_grad'" by simp
  from init_seeds_rel [OF ini t0 inj ys'(2) gs'(2)] obtain og1' where
    ini': "init_seeds og0' ys' ys_out_grad' = Inr og1'" and t1: "rel_table r og1 og1'" by blast
  have "\<exists>r1 h1' mm'. r \<subseteq>\<^sub>m r1
      \<and> (case grad_mirror_fun (attrs src) of None \<Rightarrow> Inr (h', [])
          | Some mirror_fun \<Rightarrow> mirror_all mirror_fun (h', []) topo') = Inr (h1', mm')
      \<and> rel_heap r1 h1 h1' \<and> rel_mirror r1 mm mm'"
  proof (cases "grad_mirror_fun (attrs src)")
    case None
    with mir assms(4) show ?thesis
      by (auto simp: rel_mirror_def rel_alist_def intro!: exI [of _ r])
  next
    case (Some mf)
    with mir have m: "mirror_all mf (h, []) topo = Inr (h1, mm)" by simp
    from assms(3) Some have "shape_fun mf" by (simp add: equivariant_request_def)
    moreover have "rel_mirror r [] []" by (simp add: rel_mirror_def rel_alist_def)
    ultimately show ?thesis using mirror_all_rel [OF m assms(4) _ tt] Some by simp
  qed
  then obtain r1 h1' mm' where r1: "r \<subseteq>\<^sub>m r1"
    and mir': "(case grad_mirror_fun (attrs src) of None \<Rightarrow> Inr (h', [])
          | Some mirror_fun \<Rightarrow> mirror_all mirror_fun (h', []) topo') = Inr (h1', mm')"
    and rh1: "rel_heap r1 h1 h1'" and rm: "rel_mirror r1 mm mm'" by blast
  from tt have "list_all2 (rel_ptr r) (rev topo) (rev topo')" by simp
  from backward_rel [OF bw assms(2) eq_af rh1 rel_table_mono [OF r1 t1] rm
      rel_ptrs_mono [OF r1 this]]
  obtain r2 og2' h2' where r2: "r1 \<subseteq>\<^sub>m r2"
    and bw': "backward E af mm' (og1', h1') (rev topo') = Inr (og2', h2')"
    and rh2: "rel_heap r2 h2 h2'" and t2: "rel_table r2 og2 og2'" by blast
  from r1 r2 have r02: "r \<subseteq>\<^sub>m r2" by (rule map_le_trans)
  from take_grads_rel [OF tk eq_af rh2 t2 _ rel_entries_mono [OF r02 xs'(2)], of "[]"]
  obtain r3 og3' h3' outs' where r3: "r2 \<subseteq>\<^sub>m r3"
    and tk': "take_grads af (og2', h2', []) xs' = Inr (og3', h3', outs')"
    and rh3: "rel_heap r3 h3 h3'" and oo: "list_all2 (rel_entry r3) outs outs'" by auto
  from r02 r3 have "r \<subseteq>\<^sub>m r3" by (rule map_le_trans)
  moreover have "Gradient_run E src' h' =
      Inr \<lparr>output_grads = og3', mirror_map = mm', ret_outputs = outs', store = h3'\<rparr>"
    using ys'(1) gs'(1) xs'(1) same dfs' al' len' ini' mir' bw' tk'
    by (simp add: Gradient_run_def af_def)
  ultimately show ?thesis using rh3 oo st by (auto intro!: exI [of _ r3])
qed

lemma extends_iff: "extends h h1 \<longleftrightarrow> (\<exists>t. h1 = h @ t)"
proof
  assume "extends h h1"
  then have "h1 = h @ drop (length h) h1"
    unfolding extends_def by (metis append_take_drop_id)
  then show "\<exists>t. h1 = h @ t" ..
next
  assume "\<exists>t. h1 = h @ t"
  then show "extends h h1" by (auto simp: extends_def)
qed

lemma extends_refl [simp]: "extends h h"
  by (simp add: extends_def)

lemma extends_trans: "extends h h1 \<Longrightarrow> extends h1 h2 \<Longrightarrow> extends h h2"
  by (auto simp: extends_iff)

lemma extends_append [simp]: "extends h (h @ t)"
  by (simp add: extends_def)

lemma default_agg_framing: "framing_agg (DefaultAggregateGradient E)"
  by (auto simp: framing_agg_def DefaultAggregateGradient_def Node_Create_def Op_Get_def
      split: if_splits)

lemma mirror_step_extends: "mirror_step mf s p = Inr s' \<Longrightarrow> extends (fst s) (fst s')"
  by (auto simp: mirror_step_def Node_Create_def split: sum.splits if_splits)

lemma mirror_all_extends: "mirror_all mf s ps = Inr s' \<Longrightarrow> extends (fst s) (fst s')"
proof (induction ps arbitrary: s)
  case Nil
  then show ?case by simp
next
  case (Cons p ps)
  then obtain s1 where "mirror_step mf s p = Inr s1" "mirror_all mf s1 ps = Inr s'"
    by (auto split: sum.splits)
  with Cons.IH [of s1] show ?case by (blast intro: extends_trans dest: mirror_step_extends)
qed

lemma agg_slots_extends:
  "agg_slots af es h = Inr (es1, outs, h1) \<Longrightarrow> framing_agg af \<Longrightarrow> extends h h1"
proof (induction es arbitrary: h es1 outs)
  case Nil
  then show ?case by simp
next
  case (Cons e es)
  from Cons.prems(1) obtain s rest h2 es2 outs2 where
    a: "af (grads e) h = Inr (s, rest, h2)" and b: "agg_slots af es h2 = Inr (es2, outs2, h1)"
    by (auto split: sum.splits)
  from a Cons.prems(2) have "extends h h2" unfolding framing_agg_def by blast
  with Cons.IH [OF b Cons.prems(2)] show ?case by (blast intro: extends_trans)
qed

lemma call_grad_fun_extends:
  "call_grad_fun E m ptr ogs h = Inr (gs, h1) \<Longrightarrow> framing_env E \<Longrightarrow> extends h h1"
  unfolding call_grad_fun_def framing_env_def framing_grad_def
  by (auto split: sum.splits option.splits)

lemma backward_step_extends:
  assumes "backward_step E af m s ptr = Inr s'" and "framing_env E" and "framing_agg af"
  shows "extends (snd s) (snd s')"
proof -
  from assms(1) obtain n where n: "deref (snd s) ptr = Inr n"
    by (auto simp: backward_step_def split: sum.splits)
  show ?thesis
  proof (cases "is_variable n")
    case True
    with assms(1) n show ?thesis by (auto simp: backward_step_def)
  next
    case False
    with assms(1) n obtain slots slots1 outs h2 gs h3 where
      "agg_slots af slots (snd s) = Inr (slots1, outs, h2)"
      "call_grad_fun E m ptr outs h2 = Inr (gs, h3)" "snd s' = h3"
      by (auto simp: backward_step_def split: sum.splits option.splits)
    with agg_slots_extends [OF _ assms(3)] call_grad_fun_extends [OF _ assms(2)]
    show ?thesis by (blast intro: extends_trans)
  qed
qed

lemma backward_extends:
  "backward E af m s ps = Inr s' \<Longrightarrow> framing_env E \<Longrightarrow> framing_agg af
     \<Longrightarrow> extends (snd s) (snd s')"
proof (induction ps arbitrary: s)
  case Nil
  then show ?case by simp
next
  case (Cons p ps)
  from Cons.prems(1) obtain s1 where s1: "backward_step E af m s p = Inr s1"
    and rest: "backward E af m s1 ps = Inr s'" by (auto split: sum.splits)
  from backward_step_extends [OF s1 Cons.prems(2,3)] Cons.IH [OF rest Cons.prems(2,3)]
  show ?case by (blast intro: extends_trans)
qed

lemma take_grad_extends:
  "take_grad af s e = Inr s' \<Longrightarrow> framing_agg af \<Longrightarrow> extends (fst (snd s)) (fst (snd s'))"
  unfolding take_grad_def aggregate_if_needed_def framing_agg_def
  by (auto split: sum.splits if_splits prod.splits)

lemma take_grads_extends:
  "take_grads af s es = Inr s' \<Longrightarrow> framing_agg af \<Longrightarrow> extends (fst (snd s)) (fst (snd s'))"
proof (induction es arbitrary: s)
  case Nil
  then show ?case by simp
next
  case (Cons e es)
  from Cons.prems(1) obtain s1 where s1: "take_grad af s e = Inr s1"
    and rest: "take_grads af s1 es = Inr s'" by (auto split: sum.splits)
  from take_grad_extends [OF s1 Cons.prems(2)] Cons.IH [OF rest Cons.prems(2)]
  show ?case by (blast intro: extends_trans)
qed

lemma Gradient_run_extends:
  assumes "Gradient_run E src h = Inr st" and "framing_env E" and "framing_request src"
  shows "extends h (store st)"
proof -
  define af where "af = (case grad_aggregate_fun (attrs src) of
      None \<Rightarrow> DefaultAggregateGradient E | Some f \<Rightarrow> f)"
  from assms(1) obtain topo og1 h1 mm og2 h2 og3 h3 outs xs where
    mir: "(case grad_mirror_fun (attrs src) of None \<Rightarrow> Inr (h, [])
            | Some mirror_fun \<Rightarrow> mirror_all mirror_fun (h, []) topo) = Inr (h1, mm)"
    and bw: "backward E af mm (og1, h1) (rev topo) = Inr (og2, h2)"
    and tk: "take_grads af (og2, h2, []) xs = Inr (og3, h3, outs)"
    and st: "store st = h3"
    unfolding af_def
    by (auto simp: Gradient_run_def Let_def split: option.splits sum.splits if_splits prod.splits)
  from assms(3) have fa: "framing_agg af"
    unfolding af_def framing_request_def by (auto simp: default_agg_framing split: option.splits)
  from mir have "extends h h1"
    by (auto split: option.splits dest: mirror_all_extends)
  moreover from backward_extends [OF bw assms(2) fa] have "extends h1 h2" by simp
  moreover from take_grads_extends [OF tk fa] have "extends h2 h3" by simp
  ultimately show ?thesis using st by (blast intro: extends_trans)
qed

lemma id_ren_ptr: "closed_ptr h p \<Longrightarrow> rel_ptr (id_ren h) p p"
  by (auto simp: closed_ptr_def rel_ptr_def id_ren_def split: option.splits)

lemma id_ren_entries: "closed_entries h es \<Longrightarrow> list_all2 (rel_entry (id_ren h)) es es"
  by (auto simp: closed_entries_def list_all2_same list_all_iff rel_entry_def intro: id_ren_ptr)

lemma id_ren_node: "closed_node h n \<Longrightarrow> rel_node (id_ren h) n n"
proof -
  assume c: "closed_node h n"
  then have "list_all2 (rel_entry (id_ren h)) (inputs n) (inputs n)"
    by (simp add: closed_node_def id_ren_entries)
  moreover from c have "list_all2 (rel_ptr (id_ren h)) (control_deps n) (control_deps n)"
    by (simp add: closed_node_def list_all2_same list_all_iff id_ren_ptr)
  ultimately show ?thesis by (simp add: rel_node_def)
qed

lemma id_ren_heap:
  assumes "closed_heap h" and "extends h h1"
  shows "rel_heap (id_ren h) h h1"
proof -
  from assms(2) obtain t where h1: "h1 = h @ t" by (auto simp: extends_iff)
  have "inj_ren (id_ren h)" by (auto simp: inj_ren_def id_ren_def split: if_splits)
  moreover have "a < length h \<and> a' < length h1 \<and> rel_node (id_ren h) (h ! a) (h1 ! a')"
    if "id_ren h a = Some a'" for a a'
  proof -
    from that have a: "a < length h" "a' = a" by (auto simp: id_ren_def split: if_splits)
    with assms(1) have "closed_node h (h ! a)" by (simp add: closed_heap_def list_all_length)
    with a h1 show ?thesis by (simp add: nth_append id_ren_node)
  qed
  ultimately show ?thesis unfolding rel_heap_def by blast
qed

lemma id_ren_request: "closed_request h src \<Longrightarrow> rel_request (id_ren h) src src"
  by (auto simp: closed_request_def rel_request_def option.rel_sel id_ren_entries
      split: option.splits)

lemma unary_grad_equivariant: "equivariant_grad (unary_grad nm)"
  unfolding equivariant_grad_def
proof (intro allI impI, elim conjE)
  fix r h h' p p' ogs ogs' gs h1
  assume rh: "rel_heap r h h'" and pp: "rel_ptr r p p'"
    and oo: "list_all2 (rel_entry r) ogs ogs'"
    and run: "unary_grad nm p ogs h = Inr (gs, h1)"
  let ?r = "r(length h \<mapsto> length h')"
  note le = alloc_map_le [OF rh]
  from pp have "rel_entry r \<lparr>node = p, index = 0, version = 0\<rparr> \<lparr>node = p', index = 0, version = 0\<rparr>"
    by (simp add: rel_entry_def)
  with oo have "list_all2 (rel_entry r) (ogs @ [\<lparr>node = p, index = 0, version = 0\<rparr>])
      (ogs' @ [\<lparr>node = p', index = 0, version = 0\<rparr>])"
    by (auto intro!: list_all2_appendI)
  from rel_entries_mono [OF le this]
  have "rel_node ?r (op_node nm [] (ogs @ [\<lparr>node = p, index = 0, version = 0\<rparr>]))
      (op_node nm [] (ogs' @ [\<lparr>node = p', index = 0, version = 0\<rparr>]))"
    by (simp add: rel_node_def op_node_def)
  from rel_heap_alloc [OF rh this]
  have "rel_heap ?r (h @ [op_node nm [] (ogs @ [\<lparr>node = p, index = 0, version = 0\<rparr>])])
      (h' @ [op_node nm [] (ogs' @ [\<lparr>node = p', index = 0, version = 0\<rparr>])])" .
  moreover have "rel_entry ?r (ent (length h)) (ent (length h'))"
    by (simp add: rel_entry_def rel_ptr_def ent_def)
  ultimately show "\<exists>r' gs' h1'. r \<subseteq>\<^sub>m r' \<and> unary_grad nm p' ogs' h' = Inr (gs', h1')
      \<and> rel_heap r' h1 h1' \<and> list_all2 (rel_entry r') gs gs'"
    using run le by (auto simp: unary_grad_def intro!: exI [of _ ?r])
qed

lemma both_grad_equivariant: "equivariant_grad both_grad"
  unfolding equivariant_grad_def
proof (intro allI impI, elim conjE)
  fix r h h' p p' ogs ogs' gs h1
  assume rh: "rel_heap r h h'" and oo: "list_all2 (rel_entry r) ogs ogs'"
    and run: "both_grad p ogs h = Inr (gs, h1)"
  from run obtain g rest where ogs: "ogs = g # rest" and gs: "gs = [g, g]" and h1: "h1 = h"
    by (auto simp: both_grad_def split: list.splits)
  from oo ogs obtain g' rest' where "ogs' = g' # rest'" "rel_entry r g g'"
    by (auto simp: list_all2_Cons1)
  with gs h1 rh show "\<exists>r' gs' h1'. r \<subseteq>\<^sub>m r' \<and> both_grad p' ogs' h' = Inr (gs', h1')
      \<and> rel_heap r' h1 h1' \<and> list_all2 (rel_entry r') gs gs'"
    by (auto simp: both_grad_def intro!: exI [of _ r])
qed

lemma example_env_equivariant: "equivariant_env example_env"
  by (auto simp: equivariant_env_def example_env_def shape_fun_def unary_grad_equivariant
      both_grad_equivariant split: if_splits)

lemma example_env_framing: "framing_env example_env"
  by (auto simp: framing_env_def framing_grad_def example_env_def unary_grad_def both_grad_def
      split: if_splits list.splits)

text \<open>
  Claim C8. The pass is deterministic up to the identity of the nodes it creates. A
  second run on the same graph and attributes, in the store that the first run left,
  completes as the first did, and its result is the result of the first run under a
  renaming of addresses: the renaming is injective, it fixes the nodes of the source
  graph, it relates the outputs of the two graphs position by position, and the nodes it
  relates have the same operator and name and related inputs and control dependencies.
  The gradient functions, aggregation function and mirror function are required not to
  depend on addresses and to leave existing nodes as they are, and the store to be closed.
\<close>

theorem Gradient_twice:
  assumes "Gradient E src h = Inr (g1, h1)"
    and "equivariant_env E" and "framing_env E"
    and "equivariant_request src" and "framing_request src"
    and "closed_heap h" and "closed_request h src"
  shows "\<exists>g2 h2 r. Gradient E src h1 = Inr (g2, h2)
           \<and> rel_heap r h1 h2 \<and> list_all2 (rel_entry r) (outputs g1) (outputs g2)
           \<and> attrs g2 = attrs g1 \<and> (\<forall>a < length h. r a = Some a)"
proof -
  from assms(1) obtain st where st: "Gradient_run E src h = Inr st"
    and g1: "g1 = \<lparr>outputs = ret_outputs st, attrs = no_attrs\<rparr>" and h1: "h1 = store st"
    by (auto simp: Gradient_def split: sum.splits)
  from Gradient_run_extends [OF st assms(3,5)] h1 have "extends h h1" by simp
  from id_ren_heap [OF assms(6) this] have rh: "rel_heap (id_ren h) h h1" .
  from Gradient_run_rel [OF st assms(2,4) rh id_ren_request [OF assms(7)]]
  obtain r st' where le: "id_ren h \<subseteq>\<^sub>m r" and st': "Gradient_run E src h1 = Inr st'"
    and rh': "rel_heap r (store st) (store st')"
    and oo: "list_all2 (rel_entry r) (ret_outputs st) (ret_outputs st')" by blast
  have "\<forall>a < length h. r a = Some a"
  proof (intro allI impI)
    fix a assume "a < length h"
    then have "id_ren h a = Some a" by (simp add: id_ren_def)
    with le show "r a = Some a" by (auto simp: map_le_def dom_def)
  qed
  with st' rh' oo g1 h1 show ?thesis
    by (auto simp: Gradient_def)
qed

theorem Gradient_twice_witness:
  "Gradient example_env (request [ent 3] [ent 4] [ent 0])
       (diamond ''f'' ''g'' ''add'' @ [variable_node ''seed'']) =
      Inr (\<lparr>outputs = [ent 7], attrs = no_attrs\<rparr>,
           diamond ''f'' ''g'' ''add'' @
             [variable_node ''seed'', op_node ''g_grad'' [] [ent 4, ent 2],
              op_node ''f_grad'' [] [ent 4, ent 1],
              op_node ''__ewise_sum__'' [] [ent 5, ent 6]])
   \<and> (\<exists>g2 h2 r.
        Gradient example_env (request [ent 3] [ent 4] [ent 0])
          (diamond ''f'' ''g'' ''add'' @
             [variable_node ''seed'', op_node ''g_grad'' [] [ent 4, ent 2],
              op_node ''f_grad'' [] [ent 4, ent 1],
              op_node ''__ewise_sum__'' [] [ent 5, ent 6]]) = Inr (g2, h2)
        \<and> rel_heap r
             (diamond ''f'' ''g'' ''add'' @
               [variable_node ''seed'', op_node ''g_grad'' [] [ent 4, ent 2],
                op_node ''f_grad'' [] [ent 4, ent 1],
                op_node ''__ewise_sum__'' [] [ent 5, ent 6]]) h2
        \<and> list_all2 (rel_entry r) [ent 7] (outputs g2))"
proof -
  let ?h = "diamond ''f'' ''g'' ''add'' @ [variable_node ''seed'']"
  let ?src = "request [ent 3] [ent 4] [ent 0]"
  let ?h1 = "diamond ''f'' ''g'' ''add'' @
             [variable_node ''seed'', op_node ''g_grad'' [] [ent 4, ent 2],
              op_node ''f_grad'' [] [ent 4, ent 1],
              op_node ''__ewise_sum__'' [] [ent 5, ent 6]]"
  have run: "Gradient example_env ?src ?h = Inr (\<lparr>outputs = [ent 7], attrs = no_attrs\<rparr>, ?h1)"
    by (simp add: Gradient_def Gradient_run_def example_env_def request_def diamond_def
        ent_def variable_node_def op_node_def DFSVisit_def deref_def alloc_slots_def
        GradEntry_init_def slot_get_def slot_put_def backward_step_def call_grad_fun_def
        is_variable_def unary_grad_def both_grad_def DefaultAggregateGradient_def
        take_grad_def aggregate_if_needed_def moved_from_def Node_Create_def Op_Get_def)
  have req: "equivariant_request ?src" "framing_request ?src"
    by (simp_all add: equivariant_request_def framing_request_def request_def)
  have closed: "closed_heap ?h" "closed_request ?h ?src"
    by (simp_all add: closed_heap_def closed_node_def closed_entries_def closed_ptr_def
        closed_request_def request_def diamond_def variable_node_def op_node_def ent_def)
  from Gradient_twice [OF run example_env_equivariant example_env_framing req closed] run
  show ?thesis by auto
qed

end
